theory Spec2Isabelle
  imports Main "HOL-Library.FSet" "HOL-Library.Multiset" "HOL-Library.Product_Lexorder"
    "HOL-Library.Option_ord"
begin

section \<open>Text as sequences of code points\<close>

text \<open>
  A Python \<open>str\<close> is a sequence of Unicode code points, and the scraper handles Cyrillic
  text, so a string is a list of code points here. \<open>ascii\<close> embeds an ASCII literal.
\<close>

type_synonym ustr = "nat list"

definition ascii :: "string \<Rightarrow> ustr" where
  "ascii s = map of_char s"

definition NL :: nat where "NL = 10"
definition SP :: nat where "SP = 32"
definition TAB :: nat where "TAB = 9"

text \<open>
  The characters that \<open>\s\<close> matches in a \<open>str\<close> pattern and that \<open>str.strip()\<close> removes:
  those for which \<open>str.isspace\<close> holds.
\<close>

definition is_space :: "nat \<Rightarrow> bool" where
  "is_space c \<longleftrightarrow>
     (9 \<le> c \<and> c \<le> 13) \<or> (28 \<le> c \<and> c \<le> 32) \<or> c = 133 \<or> c = 160 \<or> c = 5760 \<or>
     (8192 \<le> c \<and> c \<le> 8202) \<or> c = 8232 \<or> c = 8233 \<or> c = 8239 \<or> c = 8287 \<or> c = 12288"

text \<open>The class \<open>[ \t]\<close>.\<close>

definition is_sptab :: "nat \<Rightarrow> bool" where
  "is_sptab c \<longleftrightarrow> c = SP \<or> c = TAB"

text \<open>\<open>str.strip()\<close>: whitespace is removed from both ends.\<close>

definition strip :: "ustr \<Rightarrow> ustr" where
  "strip s = rev (dropWhile is_space (rev (dropWhile is_space s)))"

text \<open>\<open>sub in s\<close> on strings: \<open>sub\<close> occurs as a contiguous piece of \<open>s\<close>.\<close>

fun contains :: "ustr \<Rightarrow> ustr \<Rightarrow> bool" where
  "contains sub [] = (sub = [])"
| "contains sub (c # cs) = (take (length sub) (c # cs) = sub \<or> contains sub cs)"

text \<open>
  A greedy quantifier tries the longest repetition first and gives characters back one
  at a time; \<open>first_some\<close> runs the continuation on the candidates in that order and
  keeps the first success.
\<close>

fun first_some :: "('a \<Rightarrow> 'b option) \<Rightarrow> 'a list \<Rightarrow> 'b option" where
  "first_some f [] = None"
| "first_some f (x # xs) = (case f x of Some y \<Rightarrow> Some y | None \<Rightarrow> first_some f xs)"

text \<open>
  The candidate lengths of \<open>C{lo,hi}\<close> at the start of \<open>s\<close>, for a character class \<open>C\<close>,
  longest first.
\<close>

definition greedy :: "(nat \<Rightarrow> bool) \<Rightarrow> nat \<Rightarrow> nat \<Rightarrow> ustr \<Rightarrow> nat list" where
  "greedy C lo hi s = rev [lo ..< Suc (min hi (length (takeWhile C s)))]"

section \<open>Whitespace normalisation: \<open>clean_text\<close>\<close>

text \<open>
  \<^verbatim>\<open>
  def clean_text(t):
      return re.sub(r"\s+\n", "\n", re.sub(r"[ \t]+", " ", (t or "") )).strip()
  \<close>
  \<open>re.sub\<close> scans from the left; where the pattern matches it writes the replacement and
  goes on after the match, elsewhere it copies one character. Neither pattern matches
  the empty string.
\<close>

text \<open>\<open>[ \t]+\<close> at the start of \<open>s\<close>: the length of the match, if there is one.\<close>

definition match_sptab :: "ustr \<Rightarrow> nat option" where
  "match_sptab s = first_some (\<lambda>n. Some n) (greedy is_sptab 1 (length s) s)"

text \<open>
  \<open>\s+\n\<close> at the start of \<open>s\<close>: \<open>\s+\<close> takes \<open>n\<close> whitespace characters, longest first,
  and the next character has to be a newline.
\<close>

definition match_ws_nl :: "ustr \<Rightarrow> nat option" where
  "match_ws_nl s =
     first_some (\<lambda>n. if n < length s \<and> s ! n = NL then Some (Suc n) else None)
       (greedy is_space 1 (length s) s)"

lemma first_some_SomeD: "first_some f xs = Some y \<Longrightarrow> \<exists>x \<in> set xs. f x = Some y"
  by (induction xs) (auto split: option.splits)

lemma match_sptab_pos: "match_sptab s = Some n \<Longrightarrow> 0 < n"
  by (auto simp: match_sptab_def greedy_def dest!: first_some_SomeD)

lemma match_ws_nl_pos: "match_ws_nl s = Some n \<Longrightarrow> 0 < n"
  by (auto simp: match_ws_nl_def greedy_def dest!: first_some_SomeD split: if_splits)

function sub_sptab :: "ustr \<Rightarrow> ustr" where
  "sub_sptab [] = []"
| "sub_sptab (c # cs) =
     (case match_sptab (c # cs) of
        Some n \<Rightarrow> SP # sub_sptab (drop n (c # cs))
      | None \<Rightarrow> c # sub_sptab cs)"
  by pat_completeness auto
termination
  by (relation "measure length") (auto dest: match_sptab_pos)

function sub_ws_nl :: "ustr \<Rightarrow> ustr" where
  "sub_ws_nl [] = []"
| "sub_ws_nl (c # cs) =
     (case match_ws_nl (c # cs) of
        Some n \<Rightarrow> NL # sub_ws_nl (drop n (c # cs))
      | None \<Rightarrow> c # sub_ws_nl cs)"
  by pat_completeness auto
termination
  by (relation "measure length") (auto dest: match_ws_nl_pos)

definition clean_text :: "ustr \<Rightarrow> ustr" where
  "clean_text t = strip (sub_ws_nl (sub_sptab t))"

subsection \<open>Properties of the two substitutions and of \<open>strip\<close>\<close>







lemma set_greedy: "set (greedy C lo hi s) = {n. lo \<le> n \<and> n \<le> hi \<and> n \<le> length (takeWhile C s)}"
  by (auto simp: greedy_def)






declare sub_sptab.simps(2) [simp del]
declare sub_ws_nl.simps(2) [simp del]






















subsection \<open>Claim C8: what \<open>clean_text\<close> does to whitespace\<close>





section \<open>The article parser\<close>

text \<open>
  The markup parser is an external library. A parsed page is represented by what the
  scraper's queries on it return:
  \<^item> \<open>heading\<close>: the text of the first \<open>h1\<close> or \<open>h2\<close> element
    (\<open>soup.find(["h1","h2"])\<close>, then \<open>get_text(" ", strip=True)\<close>), if there is one;
  \<^item> \<open>article_paragraphs\<close>: with \<open>main = soup.find("main") or soup\<close>, the texts of the
    \<open>p\<close> elements of \<open>main.find("article")\<close>, if \<open>main\<close> has an \<open>article\<close> element;
  \<^item> \<open>main_paragraphs\<close>: the texts of the \<open>p\<close> elements of \<open>main\<close>;
  \<^item> \<open>anchors\<close>: the \<open>href\<close> attributes of the \<open>a\<close> elements that have one
    (\<open>soup.find_all("a", href=True)\<close>), in document order.
\<close>

record soup =
  heading :: "ustr option"
  article_paragraphs :: "ustr list option"
  main_paragraphs :: "ustr list"
  anchors :: "ustr list"

text \<open>\<open>"\n".join(ps)\<close>\<close>

fun join_nl :: "ustr list \<Rightarrow> ustr" where
  "join_nl [] = []"
| "join_nl [p] = p"
| "join_nl (p # q # ps) = p @ NL # join_nl (q # ps)"

text \<open>
  The marker pattern under \<open>re.IGNORECASE\<close>. Written in code points it is
  \<open>0427 0438 0442 (0430|0430) 0439 0442 0435 0020 0442 0430 043A 043E 0436\<close>, the Ukrainian
  for "read also". Both alternatives of the group are the same letter (U+0430), so the
  pattern is the thirteen letters of \<open>marker_phrase\<close>, here in lower case.
  A character of the text matches a letter of the pattern when its lower case is that
  letter or one of the letter's case-folding equivalents; \<open>ignorecase_class\<close> lists, for
  the letters of the phrase, the characters that do (the two cases of the letter, and for
  U+0442 and U+043E the additional characters U+1C84, U+1C85 and U+1C82).
\<close>

definition marker_phrase :: ustr where
  "marker_phrase =
     [0x447, 0x438, 0x442, 0x430, 0x439, 0x442, 0x435, 0x20, 0x442, 0x430, 0x43A, 0x43E, 0x436]"

definition ignorecase_class :: "nat \<Rightarrow> nat list" where
  "ignorecase_class p =
     (if p = 0x442 then [0x422, 0x442, 0x1C84, 0x1C85]
      else if p = 0x43E then [0x41E, 0x43E, 0x1C82]
      else if 0x430 \<le> p \<and> p \<le> 0x44F then [p - 0x20, p]
      else [p])"

fun match_ignorecase :: "ustr \<Rightarrow> ustr \<Rightarrow> bool" where
  "match_ignorecase [] s = True"
| "match_ignorecase (p # ps) [] = False"
| "match_ignorecase (p # ps) (c # cs) = (c \<in> set (ignorecase_class p) \<and> match_ignorecase ps cs)"

definition match_marker :: "ustr \<Rightarrow> bool" where
  "match_marker s = match_ignorecase marker_phrase s"

text \<open>
  \<open>re.split(pattern, txt, flags=re.IGNORECASE)[0]\<close>: the text before the leftmost match,
  the whole text when nothing matches.
\<close>

fun split_first :: "ustr \<Rightarrow> ustr" where
  "split_first [] = []"
| "split_first (c # cs) = (if match_marker (c # cs) then [] else c # split_first cs)"

text \<open>
  \<^verbatim>\<open>
  def extract_article_text(soup):
      main = soup.find("main") or soup
      article = main.find("article")
      if article:
          parts = [p.get_text(" ", strip=True) for p in article.find_all("p")]
          txt = "\n".join([p for p in parts if p])
      else:
          parts = [p.get_text(" ", strip=True) for p in main.find_all("p")]
          txt = "\n".join([p for p in parts if p])
      txt = re.split(MARKER, txt, flags=re.IGNORECASE)[0]   # MARKER: the pattern above
      return clean_text(txt)
  \<close>
  \<open>body_text\<close> is \<open>txt\<close> before the split.
\<close>

definition body_text :: "soup \<Rightarrow> ustr" where
  "body_text soup =
     (case article_paragraphs soup of
        Some parts \<Rightarrow> join_nl (filter (\<lambda>p. p \<noteq> []) parts)
      | None \<Rightarrow> join_nl (filter (\<lambda>p. p \<noteq> []) (main_paragraphs soup)))"

definition extract_article_text :: "soup \<Rightarrow> ustr" where
  "extract_article_text soup = clean_text (split_first (body_text soup))"


subsection \<open>The cut at the marker\<close>

text \<open>
  The other case of a letter of the phrase: the capital of a small Cyrillic letter
  U+0430..U+044F lies 32 code points below it; the blank has no other case.
\<close>

definition other_case :: "nat \<Rightarrow> nat" where
  "other_case p = (if 0x430 \<le> p \<and> p \<le> 0x44F then p - 0x20 else p)"

text \<open>
  A page whose article is the one paragraph "Some preceding text. READ also: link text",
  the marker phrase written with its first word (but for the last two letters) in capitals.
\<close>

definition marker_sample :: soup where
  "marker_sample = \<lparr> heading = None,
     article_paragraphs = Some [ascii ''Some preceding text. '' @
        [0x427, 0x418, 0x422, 0x410, 0x419, 0x442, 0x435, 0x20, 0x442, 0x430, 0x43A, 0x43E, 0x436] @
        ascii '': link text''],
     main_paragraphs = [], anchors = [] \<rparr>"

lemma match_ignorecase_append:
  "list_all2 (\<lambda>p c. c = p \<or> c = other_case p) ps m \<Longrightarrow> match_ignorecase ps (m @ post)"
proof (induction ps arbitrary: m)
  case Nil
  then show ?case by simp
next
  case (Cons p ps)
  then obtain c cs where m: "m = c # cs" "c = p \<or> c = other_case p"
      "list_all2 (\<lambda>p c. c = p \<or> c = other_case p) ps cs"
    by (auto simp: list_all2_Cons1)
  have "c \<in> set (ignorecase_class p)"
    using m(2) by (auto simp: ignorecase_class_def other_case_def)
  with Cons.IH[OF m(3)] m(1) show ?case by simp
qed

lemma match_marker_nonempty: "match_marker s \<Longrightarrow> s \<noteq> []"
  by (auto simp: match_marker_def marker_phrase_def)

lemma split_first_cut:
  "match_marker (drop i s) \<Longrightarrow> (\<forall>j<i. \<not> match_marker (drop j s)) \<Longrightarrow> split_first s = take i s"
proof (induction s arbitrary: i)
  case Nil
  then show ?case by (auto dest: match_marker_nonempty)
next
  case (Cons c cs)
  show ?case
  proof (cases i)
    case 0
    with Cons.prems show ?thesis by simp
  next
    case (Suc k)
    have "\<not> match_marker (drop 0 (c # cs))" using Cons.prems(2) Suc by blast
    then have nm: "\<not> match_marker (c # cs)" by simp
    have "match_marker (drop k cs)" using Cons.prems(1) Suc by simp
    moreover have "\<forall>j<k. \<not> match_marker (drop j cs)"
    proof (intro allI impI)
      fix j assume "j < k"
      then have "Suc j < i" using Suc by simp
      then have "\<not> match_marker (drop (Suc j) (c # cs))" using Cons.prems(2) by blast
      then show "\<not> match_marker (drop j cs)" by simp
    qed
    ultimately have "split_first cs = take k cs" by (rule Cons.IH)
    with nm Suc show ?thesis by simp
  qed
qed

lemma split_first_no_match_before:
  "j < length (split_first s) \<Longrightarrow> \<not> match_marker (drop j s)"
proof (induction s arbitrary: j)
  case Nil
  then show ?case by simp
next
  case (Cons c cs)
  then show ?case by (cases j) (auto split: if_splits)
qed

lemma split_first_none:
  "(\<forall>j. \<not> match_marker (drop j s)) \<Longrightarrow> split_first s = s"
proof (induction s)
  case Nil
  then show ?case by simp
next
  case (Cons c cs)
  have "\<not> match_marker (drop 0 (c # cs))" using Cons.prems by blast
  moreover have "\<forall>j. \<not> match_marker (drop j cs)"
  proof
    fix j
    have "\<not> match_marker (drop (Suc j) (c # cs))" using Cons.prems by blast
    then show "\<not> match_marker (drop j cs)" by simp
  qed
  ultimately show ?case using Cons.IH by simp
qed


subsection \<open>Claim C7: the body is cut at the first marker\<close>

text \<open>
  C7. When the body text holds the marker phrase, spelled with each letter in either
  case, and the pattern matches nowhere before it, \<open>extract_article_text\<close> returns the
  normalised text that stands before the phrase: the phrase and everything after it are
  dropped.
\<close>

theorem extract_article_text_cuts_at_marker:
  assumes "body_text soup = pre @ m @ post"
    and "list_all2 (\<lambda>p c. c = p \<or> c = other_case p) marker_phrase m"
    and "\<forall>j<length pre. \<not> match_marker (drop j (body_text soup))"
  shows "extract_article_text soup = clean_text pre"
proof -
  have "match_marker (m @ post)"
    unfolding match_marker_def using assms(2) by (rule match_ignorecase_append)
  then have "match_marker (drop (length pre) (body_text soup))" by (simp add: assms(1))
  from split_first_cut[OF this assms(3)] show ?thesis
    by (simp add: extract_article_text_def assms(1))
qed

text \<open>The sample page: the split keeps the text before the phrase, with its final blank.\<close>

lemma marker_sample_split:
  "split_first (body_text marker_sample) = ascii ''Some preceding text. ''"
  by (simp add: body_text_def marker_sample_def ascii_def match_marker_def marker_phrase_def
      ignorecase_class_def)

lemma clean_text_marker_sample:
  "clean_text (ascii ''Some preceding text. '') = ascii ''Some preceding text.''"
  by (simp add: clean_text_def ascii_def NL_def TAB_def SP_def match_sptab_def
      match_ws_nl_def greedy_def is_sptab_def is_space_def strip_def sub_sptab.simps(2) sub_ws_nl.simps(2))

text \<open>
  C7 at the sample page: the body "Some preceding text. READ also: link text" yields
  "Some preceding text.".
\<close>

theorem extract_article_text_cuts_at_marker_witness:
  "extract_article_text marker_sample = ascii ''Some preceding text.''"
proof -
  let ?pre = "ascii ''Some preceding text. ''"
  let ?m = "[0x427, 0x418, 0x422, 0x410, 0x419, 0x442, 0x435, 0x20, 0x442, 0x430, 0x43A, 0x43E, 0x436] :: nat list"
  let ?post = "ascii '': link text''"
  have b: "body_text marker_sample = ?pre @ ?m @ ?post"
    by (simp add: body_text_def marker_sample_def)
  have m: "list_all2 (\<lambda>p c. c = p \<or> c = other_case p) marker_phrase ?m"
    by (simp add: marker_phrase_def other_case_def)
  have "length ?pre = length (split_first (body_text marker_sample))"
    by (simp only: marker_sample_split)
  then have n: "\<forall>j<length ?pre. \<not> match_marker (drop j (body_text marker_sample))"
    using split_first_no_match_before by simp
  from extract_article_text_cuts_at_marker[OF b m n] show ?thesis
    by (simp only: clean_text_marker_sample)
qed

section \<open>Related links: \<open>find_prev_day_links\<close>\<close>

text \<open>
  \<^verbatim>\<open>
  def find_prev_day_links(soup, base_url):
      links = []
      for a in soup.find_all("a", href=True):
          href = a["href"]
          if "operatyvna-informatsiia" in href and "shchodo-rosiiskoho-vtorhnennia" in href:
              links.append(urljoin(base_url, href))
      # unique preserve order
      seen = set(); out=[]
      for u in links:
          if u not in seen:
              seen.add(u); out.append(u)
      return out
  \<close>
  \<open>urljoin\<close> is \<open>urllib.parse.urljoin\<close>, a library function: the model takes it as a
  parameter, \<open>urljoin base_url href\<close>.
\<close>

definition SLUG_UPDATE :: ustr where
  "SLUG_UPDATE = ascii ''operatyvna-informatsiia''"

definition SLUG_INVASION :: ustr where
  "SLUG_INVASION = ascii ''shchodo-rosiiskoho-vtorhnennia''"

definition START_URL :: ustr where
  "START_URL = ascii
     ''https://www.zsu.gov.ua/news/operatyvna-informatsiia-stanom-na-0800-20102025-shchodo-rosiiskoho-vtorhnennia''"

text \<open>The first loop: the anchors whose \<open>href\<close> holds both fragments, each resolved.\<close>

fun collect_links :: "(ustr \<Rightarrow> ustr \<Rightarrow> ustr) \<Rightarrow> ustr \<Rightarrow> ustr list \<Rightarrow> ustr list" where
  "collect_links urljoin base_url [] = []"
| "collect_links urljoin base_url (href # hrefs) =
     (if contains SLUG_UPDATE href \<and> contains SLUG_INVASION href
      then urljoin base_url href # collect_links urljoin base_url hrefs
      else collect_links urljoin base_url hrefs)"

text \<open>The second loop, with its set \<open>seen\<close>.\<close>

fun unique_from :: "ustr set \<Rightarrow> ustr list \<Rightarrow> ustr list" where
  "unique_from seen [] = []"
| "unique_from seen (u # us) =
     (if u \<notin> seen then u # unique_from (insert u seen) us else unique_from seen us)"

definition find_prev_day_links :: "(ustr \<Rightarrow> ustr \<Rightarrow> ustr) \<Rightarrow> soup \<Rightarrow> ustr \<Rightarrow> ustr list" where
  "find_prev_day_links urljoin soup base_url =
     unique_from {} (collect_links urljoin base_url (anchors soup))"

text \<open>
  The claim's reading, for comparison: an anchor is kept when its resolved form holds both
  fragments. \<open>first_seen\<close> keeps of a list the elements that did not occur earlier in it.
\<close>

definition first_seen :: "'a list \<Rightarrow> 'a list" where
  "first_seen xs = [xs ! i. i \<leftarrow> [0 ..< length xs], xs ! i \<notin> set (take i xs)]"

definition related_links_resolved :: "(ustr \<Rightarrow> ustr \<Rightarrow> ustr) \<Rightarrow> soup \<Rightarrow> ustr \<Rightarrow> ustr list" where
  "related_links_resolved urljoin soup base_url =
     first_seen (filter (\<lambda>u. contains SLUG_UPDATE u \<and> contains SLUG_INVASION u)
                   (map (urljoin base_url) (anchors soup)))"

text \<open>
  For concrete inputs, \<open>urljoin\<close> on the two kinds of reference they use: an empty
  reference resolves to the base URL itself (\<open>if not url: return base\<close>), and an absolute
  URL with no dot segments resolves to itself.
\<close>

definition urljoin_absolute :: "ustr \<Rightarrow> ustr \<Rightarrow> ustr" where
  "urljoin_absolute base url = (if url = [] then base else url)"


subsection \<open>The two loops\<close>

text \<open>A page whose only anchor has an empty \<open>href\<close>, as in \<open><a href="">\<close>.\<close>

definition empty_href_page :: soup where
  "empty_href_page = \<lparr> heading = None, article_paragraphs = None, main_paragraphs = [], anchors = [[]] \<rparr>"

lemma start_url_slugs: "contains SLUG_UPDATE START_URL \<and> contains SLUG_INVASION START_URL"
  by (simp add: SLUG_UPDATE_def SLUG_INVASION_def START_URL_def ascii_def)

lemma collect_links_filter:
  "collect_links urljoin base hrefs =
     map (urljoin base) (filter (\<lambda>h. contains SLUG_UPDATE h \<and> contains SLUG_INVASION h) hrefs)"
  by (induction hrefs) auto

lemma unique_from_first_seen:
  "unique_from seen us = [us ! i. i \<leftarrow> [0 ..< length us], us ! i \<notin> seen \<union> set (take i us)]"
proof (induction us arbitrary: seen)
  case Nil
  then show ?case by simp
next
  case (Cons u us)
  have "[(u # us) ! i. i \<leftarrow> [0 ..< length (u # us)], (u # us) ! i \<notin> seen \<union> set (take i (u # us))]
        = (if u \<notin> seen then [u] else []) @
          [us ! i. i \<leftarrow> [0 ..< length us], us ! i \<notin> insert u seen \<union> set (take i us)]"
    by (simp add: upt_conv_Cons map_Suc_upt[symmetric] o_def conj_ac del: upt_Suc cong: if_cong)
  also have "\<dots> = unique_from seen (u # us)"
    using Cons.IH[of "insert u seen"] Cons.IH[of seen] by (auto simp: insert_absorb)
  finally show ?case by simp
qed

lemma set_unique_from: "set (unique_from seen us) = set us - seen"
  by (induction us arbitrary: seen) auto

lemma distinct_unique_from: "distinct (unique_from seen us)"
  by (induction us arbitrary: seen) (auto simp: set_unique_from)


lemma unique_first_seen: "unique_from {} us = first_seen us"
  by (simp add: first_seen_def unique_from_first_seen)


text \<open>
  The bulletins of the two days before the seed's, and a page that links to them: the
  first one twice, and between them an anchor to the news index and an empty anchor.
\<close>

definition URL_19 :: ustr where
  "URL_19 = ascii
     ''https://www.zsu.gov.ua/news/operatyvna-informatsiia-stanom-na-0800-19102025-shchodo-rosiiskoho-vtorhnennia''"

definition URL_18 :: ustr where
  "URL_18 = ascii
     ''https://www.zsu.gov.ua/news/operatyvna-informatsiia-stanom-na-0800-18102025-shchodo-rosiiskoho-vtorhnennia''"

definition links_sample :: soup where
  "links_sample = \<lparr> heading = None, article_paragraphs = None, main_paragraphs = [],
     anchors = [URL_19, ascii ''/news'', URL_18, URL_19, []] \<rparr>"

lemma url_slugs:
  "contains SLUG_UPDATE URL_19" "contains SLUG_INVASION URL_19"
  "contains SLUG_UPDATE URL_18" "contains SLUG_INVASION URL_18"
  by (simp_all add: SLUG_UPDATE_def SLUG_INVASION_def URL_19_def URL_18_def ascii_def)

lemma url_distinct: "URL_19 \<noteq> URL_18" "URL_18 \<noteq> URL_19" "URL_19 \<noteq> []" "URL_18 \<noteq> []"
  "START_URL \<noteq> URL_19" "START_URL \<noteq> URL_18" "URL_19 \<noteq> START_URL" "URL_18 \<noteq> START_URL" "START_URL \<noteq> []"
  by (simp_all add: URL_19_def URL_18_def START_URL_def ascii_def)

lemma other_slugs:
  "\<not> contains SLUG_UPDATE (ascii ''/news'')" "SLUG_UPDATE \<noteq> []"
  by (simp_all add: SLUG_UPDATE_def ascii_def)


subsection \<open>Claim C6: which anchors are related links\<close>

text \<open>
  C6, as stated, keeps an anchor when its resolved form holds both fragments. The code
  tests the \<open>href\<close> as written, before resolving it. The two differ on a page of the seed
  URL with an empty anchor: the empty reference resolves to the seed URL, which holds both
  fragments, yet the code returns no link.
\<close>

theorem find_prev_day_links_counterexample:
  "find_prev_day_links urljoin_absolute empty_href_page START_URL = [] \<and>
   related_links_resolved urljoin_absolute empty_href_page START_URL = [START_URL]"
  using start_url_slugs
  by (simp add: find_prev_day_links_def related_links_resolved_def first_seen_def
      urljoin_absolute_def empty_href_page_def SLUG_UPDATE_def ascii_def)


text \<open>
  C6, amended. For every page, source URL and resolver, \<open>find_prev_day_links\<close> returns the
  anchors whose \<open>href\<close> attribute, as written, holds both fragments, each resolved against
  the source URL, without repetitions and in the order of their first occurrence.
\<close>

theorem find_prev_day_links_raw_href:
  "find_prev_day_links urljoin soup base_url =
     first_seen (map (urljoin base_url)
       (filter (\<lambda>href. contains SLUG_UPDATE href \<and> contains SLUG_INVASION href) (anchors soup))) \<and>
   distinct (find_prev_day_links urljoin soup base_url) \<and>
   set (find_prev_day_links urljoin soup base_url) =
     urljoin base_url ` {href \<in> set (anchors soup). contains SLUG_UPDATE href \<and> contains SLUG_INVASION href}"
proof (intro conjI)
  show "find_prev_day_links urljoin soup base_url =
     first_seen (map (urljoin base_url)
       (filter (\<lambda>href. contains SLUG_UPDATE href \<and> contains SLUG_INVASION href) (anchors soup)))"
    by (simp only: find_prev_day_links_def unique_first_seen collect_links_filter)
  show "distinct (find_prev_day_links urljoin soup base_url)"
    by (simp only: find_prev_day_links_def distinct_unique_from)
  show "set (find_prev_day_links urljoin soup base_url) =
     urljoin base_url ` {href \<in> set (anchors soup). contains SLUG_UPDATE href \<and> contains SLUG_INVASION href}"
    by (simp add: find_prev_day_links_def set_unique_from collect_links_filter)
qed

text \<open>The amended C6 at the sample page, seen from the seed URL.\<close>

theorem find_prev_day_links_raw_href_witness:
  "find_prev_day_links urljoin_absolute links_sample START_URL = [URL_19, URL_18]"
proof -
  have "find_prev_day_links urljoin_absolute links_sample START_URL =
     first_seen (map (urljoin_absolute START_URL)
       (filter (\<lambda>href. contains SLUG_UPDATE href \<and> contains SLUG_INVASION href) (anchors links_sample)))"
    using find_prev_day_links_raw_href[of urljoin_absolute links_sample START_URL] by blast
  also have "\<dots> = [URL_19, URL_18]"
    by (simp add: links_sample_def url_slugs other_slugs url_distinct urljoin_absolute_def first_seen_def)
  finally show ?thesis .
qed

section \<open>The date extractor\<close>

text \<open>
  \<^verbatim>\<open>
  m = re.search(r"(\d{1,2})[.\-](\d{1,2})[.\-](\d{2,4})", (res["title"] or ""))
  date_slug = ""
  if m:
      dd, mm, yy = m.groups()
      yy = "20"+yy if len(yy)==2 else yy
      try:
          date_slug = datetime(int(yy), int(mm), int(dd)).date().isoformat()
      except Exception:
          date_slug = ""
  \<close>
\<close>

text \<open>
  In a \<open>str\<close> pattern \<open>\d\<close> matches every Unicode decimal digit (category Nd), and
  \<open>int\<close> reads them all. The decimal digits come in runs of ten consecutive code points,
  zero to nine; \<open>digit_zeros\<close> lists the zero of each run (Unicode 14, the version of
  Python 3.11).
\<close>

definition digit_zeros :: "nat list" where
  "digit_zeros =
     [48, 1632, 1776, 1984, 2406, 2534, 2662, 2790, 2918, 3046, 3174, 3302, 3430, 3558, 3664,
      3792, 3872, 4160, 4240, 6112, 6160, 6470, 6608, 6784, 6800, 6992, 7088, 7232, 7248, 42528,
      43216, 43264, 43472, 43504, 43600, 44016, 65296, 66720, 68912, 69734, 69872, 69942, 70096,
      70384, 70736, 70864, 71248, 71360, 71472, 71904, 72016, 72784, 73040, 73120, 92768, 92864,
      93008, 120782, 120792, 120802, 120812, 120822, 123200, 123632, 125264, 130032]"

definition digit_value :: "nat \<Rightarrow> nat option" where
  "digit_value c =
     (case find (\<lambda>z. z \<le> c \<and> c < z + 10) digit_zeros of
        Some z \<Rightarrow> Some (c - z)
      | None \<Rightarrow> None)"

definition is_digit :: "nat \<Rightarrow> bool" where
  "is_digit c \<longleftrightarrow> digit_value c \<noteq> None"

text \<open>The class \<open>[.\-]\<close>.\<close>

definition is_sep :: "nat \<Rightarrow> bool" where
  "is_sep c \<longleftrightarrow> c = 46 \<or> c = 45"

text \<open>
  The pattern at the start of a string, piece by piece. \<open>digits_sep k s\<close> is
  \<open>(\d{1,2})[.\-]\<close> followed by the rest of the pattern, \<open>k\<close>, which receives the group
  and the text after the separator. The repetition is greedy: it takes two digits before
  it tries one. \<open>year_group\<close> is \<open>(\d{2,4})\<close>, the end of the pattern.
\<close>

definition digits_sep :: "(ustr \<Rightarrow> ustr \<Rightarrow> 'a option) \<Rightarrow> ustr \<Rightarrow> 'a option" where
  "digits_sep k s =
     first_some (\<lambda>n.
       case drop n s of
         [] \<Rightarrow> None
       | c # r \<Rightarrow> if is_sep c then k (take n s) r else None)
       (greedy is_digit 1 2 s)"

definition year_group :: "ustr \<Rightarrow> ustr option" where
  "year_group s = first_some (\<lambda>n. Some (take n s)) (greedy is_digit 2 4 s)"

definition match_date :: "ustr \<Rightarrow> (ustr \<times> ustr \<times> ustr) option" where
  "match_date s =
     digits_sep (\<lambda>dd r1.
       digits_sep (\<lambda>mm r2.
         case year_group r2 of
           None \<Rightarrow> None
         | Some yy \<Rightarrow> Some (dd, mm, yy)) r1) s"

text \<open>\<open>re.search\<close>: the match at the leftmost position that has one.\<close>

fun re_search_date :: "ustr \<Rightarrow> (ustr \<times> ustr \<times> ustr) option" where
  "re_search_date [] = match_date []"
| "re_search_date (c # cs) =
     (case match_date (c # cs) of
        Some g \<Rightarrow> Some g
      | None \<Rightarrow> re_search_date cs)"

text \<open>
  \<open>int(s)\<close> on a string of decimal digits; anything else is a \<open>ValueError\<close>, here \<open>None\<close>.
\<close>

fun int_digits :: "nat \<Rightarrow> ustr \<Rightarrow> nat option" where
  "int_digits acc [] = Some acc"
| "int_digits acc (c # cs) =
     (case digit_value c of
        None \<Rightarrow> None
      | Some d \<Rightarrow> int_digits (10 * acc + d) cs)"

definition py_int :: "ustr \<Rightarrow> nat option" where
  "py_int s = (if s = [] then None else int_digits 0 s)"

text \<open>
  \<open>datetime(year, month, day)\<close> raises \<open>ValueError\<close> unless the year is in 1..9999, the
  month in 1..12 and the day in 1..the number of days of that month.
\<close>

definition is_leap :: "nat \<Rightarrow> bool" where
  "is_leap y \<longleftrightarrow> y mod 4 = 0 \<and> (y mod 100 \<noteq> 0 \<or> y mod 400 = 0)"

definition days_in_month :: "nat \<Rightarrow> nat \<Rightarrow> nat" where
  "days_in_month y m =
     (if m = 2 then (if is_leap y then 29 else 28)
      else if m = 4 \<or> m = 6 \<or> m = 9 \<or> m = 11 then 30
      else 31)"

definition valid_date :: "nat \<Rightarrow> nat \<Rightarrow> nat \<Rightarrow> bool" where
  "valid_date y m d \<longleftrightarrow>
     1 \<le> y \<and> y \<le> 9999 \<and> 1 \<le> m \<and> m \<le> 12 \<and> 1 \<le> d \<and> d \<le> days_in_month y m"

text \<open>
  \<open>date.isoformat()\<close>, that is \<open>"%04d-%02d-%02d"\<close>, for a year of at most four digits and
  a month and a day of at most two.
\<close>

definition dec_digit :: "nat \<Rightarrow> nat" where
  "dec_digit n = 48 + n mod 10"

definition isoformat :: "nat \<Rightarrow> nat \<Rightarrow> nat \<Rightarrow> ustr" where
  "isoformat y m d =
     [dec_digit (y div 1000), dec_digit (y div 100), dec_digit (y div 10), dec_digit y, 45,
      dec_digit (m div 10), dec_digit m, 45,
      dec_digit (d div 10), dec_digit d]"

definition date_slug_of :: "ustr \<Rightarrow> ustr" where
  "date_slug_of title =
     (case re_search_date title of
        None \<Rightarrow> []
      | Some (dd, mm, yy) \<Rightarrow>
          (let yy' = (if length yy = 2 then ascii ''20'' @ yy else yy) in
           case py_int yy' of
             None \<Rightarrow> []
           | Some y \<Rightarrow>
               (case py_int mm of
                  None \<Rightarrow> []
                | Some m \<Rightarrow>
                    (case py_int dd of
                       None \<Rightarrow> []
                     | Some d \<Rightarrow> if valid_date y m d then isoformat y m d else []))))"


subsection \<open>The pattern, declaratively\<close>

text \<open>
  \<open>date_match_at s i (dd, mm, yy)\<close>: at position \<open>i\<close> of \<open>s\<close> stand one or two digits
  \<open>dd\<close>, a separator, one or two digits \<open>mm\<close>, a separator, and two to four digits \<open>yy\<close>,
  as many as there are up to four.
\<close>

definition date_match_at :: "ustr \<Rightarrow> nat \<Rightarrow> ustr \<times> ustr \<times> ustr \<Rightarrow> bool" where
  "date_match_at s i g \<longleftrightarrow>
     (case g of (dd, mm, yy) \<Rightarrow>
        \<exists>c1 c2 rest.
          drop i s = dd @ c1 # mm @ c2 # yy @ rest \<and>
          list_all is_digit dd \<and> 1 \<le> length dd \<and> length dd \<le> 2 \<and> is_sep c1 \<and>
          list_all is_digit mm \<and> 1 \<le> length mm \<and> length mm \<le> 2 \<and> is_sep c2 \<and>
          list_all is_digit yy \<and> 2 \<le> length yy \<and> length yy \<le> 4 \<and>
          (length yy = 4 \<or> rest = [] \<or> \<not> is_digit (hd rest)))"

lemma digit_value_seps: "digit_value 45 = None" "digit_value 46 = None"
  by (simp_all add: digit_value_def digit_zeros_def)

lemma sep_not_digit: "is_sep c \<Longrightarrow> \<not> is_digit c"
  unfolding is_sep_def is_digit_def using digit_value_seps by auto

lemma greedy_hd:
  "lo \<le> min hi (length (takeWhile C s)) \<Longrightarrow>
   greedy C lo hi s = min hi (length (takeWhile C s)) # rev [lo ..< min hi (length (takeWhile C s))]"
  by (simp add: greedy_def)

lemma greedy_Nil: "\<not> lo \<le> min hi (length (takeWhile C s)) \<Longrightarrow> greedy C lo hi s = []"
  by (simp add: greedy_def)

lemma take_takeWhile_all: "n \<le> length (takeWhile P s) \<Longrightarrow> list_all P (take n s)"
proof (induction s arbitrary: n)
  case Nil
  then show ?case by simp
next
  case (Cons c cs)
  then show ?case by (cases n) (auto split: if_splits)
qed

lemma takeWhile_all_append:
  "list_all P xs \<Longrightarrow> takeWhile P (xs @ ys) = xs @ takeWhile P ys"
  by (induction xs) auto

lemma digits_sep_iff:
  "digits_sep k s = Some g \<longleftrightarrow>
     (\<exists>ds c r. s = ds @ c # r \<and> list_all is_digit ds \<and> 1 \<le> length ds \<and> length ds \<le> 2 \<and>
        is_sep c \<and> k ds r = Some g)"
proof
  let ?f = "\<lambda>n. case drop n s of [] \<Rightarrow> None | c # r \<Rightarrow> if is_sep c then k (take n s) r else None"
  assume "digits_sep k s = Some g"
  then have "first_some ?f (greedy is_digit 1 2 s) = Some g" by (simp only: digits_sep_def)
  then obtain n where n: "n \<in> set (greedy is_digit 1 2 s)" and fn: "?f n = Some g"
    using first_some_SomeD by fastforce
  from n have nb: "1 \<le> n" "n \<le> 2" "n \<le> length (takeWhile is_digit s)"
    by (simp_all add: set_greedy)
  from fn obtain c r where d: "drop n s = c # r" and c: "is_sep c" and k: "k (take n s) r = Some g"
    by (auto split: list.splits if_splits)
  have "s = take n s @ c # r" using d by (metis append_take_drop_id)
  moreover have "list_all is_digit (take n s)" using nb(3) by (rule take_takeWhile_all)
  moreover have "length (take n s) = n"
    using nb(3) length_takeWhile_le[of is_digit s] by simp
  ultimately show "\<exists>ds c r. s = ds @ c # r \<and> list_all is_digit ds \<and> 1 \<le> length ds \<and>
      length ds \<le> 2 \<and> is_sep c \<and> k ds r = Some g"
    using nb c k by metis
next
  let ?f = "\<lambda>n. case drop n s of [] \<Rightarrow> None | c # r \<Rightarrow> if is_sep c then k (take n s) r else None"
  assume "\<exists>ds c r. s = ds @ c # r \<and> list_all is_digit ds \<and> 1 \<le> length ds \<and> length ds \<le> 2 \<and>
        is_sep c \<and> k ds r = Some g"
  then obtain ds c r where s: "s = ds @ c # r" and ds: "list_all is_digit ds"
    and l: "1 \<le> length ds" "length ds \<le> 2" and c: "is_sep c" and k: "k ds r = Some g"
    by blast
  have tw: "takeWhile is_digit s = ds"
    using ds sep_not_digit[OF c] by (simp add: s takeWhile_all_append)
  have m: "min 2 (length (takeWhile is_digit s)) = length ds" using l tw by simp
  have "greedy is_digit 1 2 s = length ds # rev [1 ..< length ds]"
    using greedy_hd[of 1 2 is_digit s] l unfolding m by simp
  moreover have "?f (length ds) = Some g" using c k by (simp add: s)
  ultimately show "digits_sep k s = Some g" by (simp add: digits_sep_def)
qed

lemma year_group_iff:
  "year_group s = Some yy \<longleftrightarrow>
     (\<exists>rest. s = yy @ rest \<and> list_all is_digit yy \<and> 2 \<le> length yy \<and> length yy \<le> 4 \<and>
        (length yy = 4 \<or> rest = [] \<or> \<not> is_digit (hd rest)))"
proof
  let ?k = "min 4 (length (takeWhile is_digit s))"
  assume a: "year_group s = Some yy"
  have k2: "2 \<le> ?k"
  proof (rule ccontr)
    assume "\<not> 2 \<le> ?k"
    then have "greedy is_digit 2 4 s = []" by (rule greedy_Nil)
    with a show False by (simp add: year_group_def)
  qed
  then have "greedy is_digit 2 4 s = ?k # rev [2 ..< ?k]" by (rule greedy_hd)
  with a have yy: "yy = take ?k s" by (simp add: year_group_def)
  have kl: "?k \<le> length (takeWhile is_digit s)" by simp
  have ls: "length (takeWhile is_digit s) \<le> length s" by (rule length_takeWhile_le)
  have "s = yy @ drop ?k s" unfolding yy by simp
  moreover have "list_all is_digit yy" unfolding yy using kl by (rule take_takeWhile_all)
  moreover have len: "length yy = ?k" unfolding yy using kl ls by simp
  moreover have "length yy = 4 \<or> drop ?k s = [] \<or> \<not> is_digit (hd (drop ?k s))"
  proof (cases "?k = 4")
    case True
    with len show ?thesis by simp
  next
    case False
    then have e: "?k = length (takeWhile is_digit s)" by (simp add: min_def split: if_splits)
    show ?thesis
    proof (cases "drop ?k s = []")
      case True
      then show ?thesis by simp
    next
      case False
      then have "?k < length s" by (simp only: drop_eq_Nil not_le)
      then have "\<not> is_digit (s ! ?k)" using e nth_length_takeWhile[of is_digit s] by simp
      moreover have "hd (drop ?k s) = s ! ?k" using \<open>?k < length s\<close> by (simp add: hd_drop_conv_nth)
      ultimately show ?thesis by simp
    qed
  qed
  ultimately show "\<exists>rest. s = yy @ rest \<and> list_all is_digit yy \<and> 2 \<le> length yy \<and> length yy \<le> 4 \<and>
        (length yy = 4 \<or> rest = [] \<or> \<not> is_digit (hd rest))"
    using k2 by (intro exI[of _ "drop ?k s"]) simp
next
  assume "\<exists>rest. s = yy @ rest \<and> list_all is_digit yy \<and> 2 \<le> length yy \<and> length yy \<le> 4 \<and>
        (length yy = 4 \<or> rest = [] \<or> \<not> is_digit (hd rest))"
  then obtain rest where s: "s = yy @ rest" and d: "list_all is_digit yy"
    and l: "2 \<le> length yy" "length yy \<le> 4"
    and g: "length yy = 4 \<or> rest = [] \<or> \<not> is_digit (hd rest)" by blast
  have tw: "takeWhile is_digit s = yy @ takeWhile is_digit rest"
    using d by (simp add: s takeWhile_all_append)
  have "min 4 (length (takeWhile is_digit s)) = length yy"
  proof (cases "length yy = 4")
    case True
    then show ?thesis by (simp add: tw)
  next
    case False
    with g have "takeWhile is_digit rest = []" by (cases rest) auto
    then show ?thesis using l by (simp add: tw)
  qed
  then have "greedy is_digit 2 4 s = length yy # rev [2 ..< length yy]"
    using greedy_hd[of 2 4 is_digit s] l by simp
  then show "year_group s = Some yy" by (simp add: year_group_def s)
qed

lemma year_cont_iff:
  "(case year_group r2 of None \<Rightarrow> None | Some yy \<Rightarrow> Some (dd, mm, yy)) = Some (dd', mm', yy') \<longleftrightarrow>
     dd' = dd \<and> mm' = mm \<and> year_group r2 = Some yy'"
  by (auto split: option.splits)

lemma match_date_iff: "match_date s = Some g \<longleftrightarrow> date_match_at s 0 g"
proof (cases g)
  case (fields dd mm yy)
  have "match_date s = Some (dd, mm, yy) \<longleftrightarrow>
      (\<exists>c1 r1. s = dd @ c1 # r1 \<and> list_all is_digit dd \<and> 1 \<le> length dd \<and> length dd \<le> 2 \<and> is_sep c1 \<and>
        (\<exists>c2 r2. r1 = mm @ c2 # r2 \<and> list_all is_digit mm \<and> 1 \<le> length mm \<and> length mm \<le> 2 \<and> is_sep c2 \<and>
           year_group r2 = Some yy))"
    unfolding match_date_def digits_sep_iff year_cont_iff by blast
  also have "\<dots> \<longleftrightarrow> date_match_at s 0 (dd, mm, yy)"
    unfolding date_match_at_def year_group_iff by (simp; blast)
  finally show ?thesis by (simp add: fields)
qed

lemma date_match_at_drop: "date_match_at s i g \<longleftrightarrow> match_date (drop i s) = Some g"
  by (simp add: match_date_iff date_match_at_def)

lemma match_date_Nil: "match_date [] = None"
  by (simp add: match_date_def digits_sep_def greedy_def)

lemma re_search_date_first:
  "match_date (drop i s) = Some g \<Longrightarrow> (\<forall>j<i. match_date (drop j s) = None) \<Longrightarrow>
   re_search_date s = Some g"
proof (induction s arbitrary: i)
  case Nil
  then show ?case by simp
next
  case (Cons c cs)
  show ?case
  proof (cases i)
    case 0
    with Cons.prems(1) show ?thesis by simp
  next
    case (Suc k)
    have "match_date (drop 0 (c # cs)) = None" using Cons.prems(2) Suc by blast
    then have n: "match_date (c # cs) = None" by simp
    have "match_date (drop k cs) = Some g" using Cons.prems(1) Suc by simp
    moreover have "\<forall>j<k. match_date (drop j cs) = None"
    proof (intro allI impI)
      fix j assume "j < k"
      then have "Suc j < i" using Suc by simp
      then have "match_date (drop (Suc j) (c # cs)) = None" using Cons.prems(2) by blast
      then show "match_date (drop j cs) = None" by simp
    qed
    ultimately have "re_search_date cs = Some g" by (rule Cons.IH)
    with n show ?thesis by simp
  qed
qed

lemma re_search_date_none:
  "(\<forall>i. match_date (drop i s) = None) \<Longrightarrow> re_search_date s = None"
proof (induction s)
  case Nil
  then show ?case by (simp add: match_date_Nil)
next
  case (Cons c cs)
  have "match_date (drop 0 (c # cs)) = None" using Cons.prems by blast
  then have n: "match_date (c # cs) = None" by simp
  have "\<forall>i. match_date (drop i cs) = None"
  proof
    fix i
    have "match_date (drop (Suc i) (c # cs)) = None" using Cons.prems by blast
    then show "match_date (drop i cs) = None" by simp
  qed
  with Cons.IH n show ?case by simp
qed

lemma int_digits_acc:
  "int_digits acc s = map_option (\<lambda>v. acc * 10 ^ length s + v) (int_digits 0 s)"
proof (induction s arbitrary: acc)
  case Nil
  then show ?case by simp
next
  case (Cons c cs)
  show ?case
  proof (cases "digit_value c")
    case None
    then show ?thesis by simp
  next
    case (Some d)
    have "int_digits (10 * acc + d) cs
          = map_option (\<lambda>v. (10 * acc + d) * 10 ^ length cs + v) (int_digits 0 cs)"
      by (rule Cons.IH)
    moreover have "int_digits d cs = map_option (\<lambda>v. d * 10 ^ length cs + v) (int_digits 0 cs)"
      by (rule Cons.IH)
    ultimately show ?thesis
      using Some by (cases "int_digits 0 cs") (simp_all add: algebra_simps)
  qed
qed

lemma int_digits_all:
  "list_all is_digit s \<Longrightarrow> \<exists>v. int_digits acc s = Some v"
proof (induction s arbitrary: acc)
  case Nil
  then show ?case by simp
next
  case (Cons c cs)
  then show ?case by (auto simp: is_digit_def)
qed

lemma py_int_digits: "list_all is_digit s \<Longrightarrow> s \<noteq> [] \<Longrightarrow> \<exists>v. py_int s = Some v"
  by (simp add: py_int_def int_digits_all)

lemma digit_value_20: "digit_value 50 = Some 2" "digit_value 48 = Some 0"
  by (simp_all add: digit_value_def digit_zeros_def)

lemma py_int_prefix_20:
  "py_int yy = Some y \<Longrightarrow> length yy = 2 \<Longrightarrow> py_int (ascii ''20'' @ yy) = Some (2000 + y)"
proof -
  assume a: "py_int yy = Some y" "length yy = 2"
  then have y: "int_digits 0 yy = Some y" by (auto simp: py_int_def split: if_splits)
  have "py_int (ascii ''20'' @ yy) = int_digits 20 yy"
    by (simp add: py_int_def ascii_def digit_value_20)
  also have "\<dots> = Some (2000 + y)"
    using int_digits_acc[of 20 yy] y a(2) by simp
  finally show ?thesis .
qed

lemma date_slug_of_match:
  assumes "date_match_at title i (dd, mm, yy)" and "\<forall>j<i. \<forall>g. \<not> date_match_at title j g"
  shows "\<exists>y m d. py_int yy = Some y \<and> py_int mm = Some m \<and> py_int dd = Some d \<and>
           date_slug_of title =
             (if valid_date (if length yy = 2 then 2000 + y else y) m d
              then isoformat (if length yy = 2 then 2000 + y else y) m d else [])"
proof -
  have "match_date (drop i title) = Some (dd, mm, yy)"
    using assms(1) by (simp only: date_match_at_drop)
  moreover have "\<forall>j<i. match_date (drop j title) = None"
    using assms(2) unfolding date_match_at_drop by (metis not_None_eq)
  ultimately have r: "re_search_date title = Some (dd, mm, yy)" by (rule re_search_date_first)
  from assms(1) have d: "list_all is_digit dd" "dd \<noteq> []" "list_all is_digit mm" "mm \<noteq> []"
      "list_all is_digit yy" "yy \<noteq> []"
    by (auto simp: date_match_at_def)
  from py_int_digits[OF d(1,2)] obtain dv where dv: "py_int dd = Some dv" by blast
  from py_int_digits[OF d(3,4)] obtain mv where mv: "py_int mm = Some mv" by blast
  from py_int_digits[OF d(5,6)] obtain yv where yv: "py_int yy = Some yv" by blast
  have "date_slug_of title =
          (if valid_date (if length yy = 2 then 2000 + yv else yv) mv dv
           then isoformat (if length yy = 2 then 2000 + yv else yv) mv dv else [])"
    using r dv mv yv py_int_prefix_20[OF yv] by (simp add: date_slug_of_def)
  with dv mv yv show ?thesis by blast
qed

lemma date_slug_of_no_match:
  "(\<forall>i g. \<not> date_match_at title i g) \<Longrightarrow> date_slug_of title = []"
proof -
  assume "\<forall>i g. \<not> date_match_at title i g"
  then have "\<forall>i. match_date (drop i title) = None"
    unfolding date_match_at_drop by (metis not_None_eq)
  then have "re_search_date title = None" by (rule re_search_date_none)
  then show ?thesis by (simp add: date_slug_of_def)
qed

lemma date_slug_of_shape:
  "date_slug_of title = [] \<or> (\<exists>y m d. valid_date y m d \<and> date_slug_of title = isoformat y m d)"
  by (auto simp: date_slug_of_def Let_def split: option.splits)

lemmas date_eval = date_slug_of_def match_date_def digits_sep_def year_group_def greedy_def
  is_digit_def digit_value_def digit_zeros_def is_sep_def py_int_def valid_date_def
  days_in_month_def is_leap_def isoformat_def dec_digit_def ascii_def

lemma all_less_upt: "(\<forall>j<i. P j) \<longleftrightarrow> list_all P [0 ..< i]"
  by (auto simp: list_all_iff)

lemma upt_small: "[0 ..< 6] = [0, 1, 2, 3, 4, 5 :: nat]" "[0 ..< 7] = [0, 1, 2, 3, 4, 5, 6 :: nat]"
  by (simp_all add: upt_conv_Cons)

lemma date_examples:
  "date_slug_of (ascii ''Report 08:00 20.10.2025 (day 1335)'') = ascii ''2025-10-20''"
  "date_slug_of (ascii ''Report 31.02.2025, later 01.03.2025'') = []"
  "date_slug_of (ascii ''no digits here'') = []"
  "date_slug_of (ascii ''Report 1.1.25 summary'') = ascii ''2025-01-01''"
  by (simp_all add: date_eval)


lemma py_int_samples:
  "py_int (ascii ''20'') = Some 20" "py_int (ascii ''10'') = Some 10"
  "py_int (ascii ''2025'') = Some 2025" "py_int (ascii ''202'') = Some 202"
  "py_int (ascii ''1'') = Some 1"
  by (simp_all add: py_int_def ascii_def digit_value_def digit_zeros_def)


subsection \<open>Claim C4: the date of a title\<close>

text \<open>
  C4, as stated, gives the year two or four digits. The pattern's year is \<open>\d{2,4}\<close>:
  the first match of the title "1.1.202" has the three-digit year "202", and the date
  0202-01-01 is recovered from it.
\<close>

theorem date_year_digits_counterexample:
  "re_search_date (ascii ''1.1.202'') = Some (ascii ''1'', ascii ''1'', ascii ''202'') \<and>
   length (ascii ''202'') = 3 \<and>
   date_slug_of (ascii ''1.1.202'') = ascii ''0202-01-01''"
  by (simp add: date_eval)


text \<open>
  C4, amended. The pattern is a day of one or two digits, a separator \<open>.\<close> or \<open>-\<close>, a
  month of one or two digits, a separator, and a year of two to four digits. A title
  in which it matches nowhere has no date. Otherwise the leftmost match alone decides:
  a two-digit year \<open>yy\<close> stands for \<open>20yy\<close>, a longer one for itself; when day, month and
  year form a calendar date, \<open>date_slug\<close> is its ISO form, and otherwise it is empty,
  whatever follows in the title. Four sample titles follow: one with "08:00 20.10.2025",
  one with "31.02.2025" (and a valid date after it), one without digits, and one with
  "1.1.25".
\<close>

theorem date_slug_of_first_match:
  "((\<forall>i g. \<not> date_match_at title i g) \<longrightarrow> date_slug_of title = []) \<and>
   (\<forall>i dd mm yy.
      date_match_at title i (dd, mm, yy) \<and> (\<forall>j<i. \<forall>g. \<not> date_match_at title j g) \<longrightarrow>
      (\<exists>y m d. py_int yy = Some y \<and> py_int mm = Some m \<and> py_int dd = Some d \<and>
         date_slug_of title =
           (if valid_date (if length yy = 2 then 2000 + y else y) m d
            then isoformat (if length yy = 2 then 2000 + y else y) m d else []))) \<and>
   date_slug_of (ascii ''Report 08:00 20.10.2025 (day 1335)'') = ascii ''2025-10-20'' \<and>
   date_slug_of (ascii ''Report 31.02.2025, later 01.03.2025'') = [] \<and>
   date_slug_of (ascii ''no digits here'') = [] \<and>
   date_slug_of (ascii ''Report 1.1.25 summary'') = ascii ''2025-01-01''"
  using date_slug_of_no_match[of title] date_slug_of_match[of title] date_examples
  by (intro conjI allI impI) blast+


text \<open>The amended C4 at the title "08:00 20.10.2025", where the match starts at position 6.\<close>

theorem date_slug_of_first_match_witness:
  "date_match_at (ascii ''08:00 20.10.2025'') 6 (ascii ''20'', ascii ''10'', ascii ''2025'') \<and>
   date_slug_of (ascii ''08:00 20.10.2025'') = ascii ''2025-10-20''"
proof -
  let ?t = "ascii ''08:00 20.10.2025''"
  have a: "date_match_at ?t 6 (ascii ''20'', ascii ''10'', ascii ''2025'')"
    unfolding date_match_at_drop by (simp add: date_eval)
  have "\<forall>j<6. match_date (drop j ?t) = None"
    unfolding all_less_upt upt_small by (simp add: date_eval)
  then have b: "\<forall>j<6. \<forall>g. \<not> date_match_at ?t j g"
    unfolding date_match_at_drop by simp
  from date_slug_of_first_match[of ?t] a b
  obtain y m d where "py_int (ascii ''2025'') = Some y" "py_int (ascii ''10'') = Some m"
      "py_int (ascii ''20'') = Some d"
      "date_slug_of ?t = (if valid_date (if length (ascii ''2025'') = 2 then 2000 + y else y) m d
            then isoformat (if length (ascii ''2025'') = 2 then 2000 + y else y) m d else [])"
    by blast
  then have "date_slug_of ?t = ascii ''2025-10-20''"
    by (simp add: py_int_samples) (simp add: valid_date_def days_in_month_def isoformat_def dec_digit_def ascii_def)
  with a show ?thesis by simp
qed


subsection \<open>Claim C10: a year of three digits\<close>

text \<open>
  C10. When the year of the leftmost match has three digits, it is read as it stands,
  without the prefix "20": \<open>date_slug\<close> is the ISO form of that year, month and day when
  they form a calendar date.
\<close>

theorem three_digit_year_verbatim:
  assumes "date_match_at title i (dd, mm, yy)" and "\<forall>j<i. \<forall>g. \<not> date_match_at title j g"
    and "length yy = 3"
  shows "\<exists>y m d. py_int yy = Some y \<and> py_int mm = Some m \<and> py_int dd = Some d \<and>
           date_slug_of title = (if valid_date y m d then isoformat y m d else [])"
proof -
  from date_slug_of_match[OF assms(1,2)] obtain y m d where
    v: "py_int yy = Some y" "py_int mm = Some m" "py_int dd = Some d" and
    s: "date_slug_of title =
             (if valid_date (if length yy = 2 then 2000 + y else y) m d
              then isoformat (if length yy = 2 then 2000 + y else y) m d else [])"
    by blast
  from s assms(3) have "date_slug_of title = (if valid_date y m d then isoformat y m d else [])"
    by simp
  with v show ?thesis by blast
qed


text \<open>C10 at the title "Report 1.1.202": the year is 202 and the slug 0202-01-01.\<close>

theorem three_digit_year_verbatim_witness:
  "date_slug_of (ascii ''Report 1.1.202'') = ascii ''0202-01-01''"
proof -
  let ?t = "ascii ''Report 1.1.202''"
  have a: "date_match_at ?t 7 (ascii ''1'', ascii ''1'', ascii ''202'')"
    unfolding date_match_at_drop by (simp add: date_eval)
  have "\<forall>j<7. match_date (drop j ?t) = None"
    unfolding all_less_upt upt_small by (simp add: date_eval)
  then have b: "\<forall>j<7. \<forall>g. \<not> date_match_at ?t j g"
    unfolding date_match_at_drop by simp
  have c: "length (ascii ''202'') = 3" by (simp add: ascii_def)
  from three_digit_year_verbatim[OF a b c]
  obtain y m d where "py_int (ascii ''202'') = Some y" "py_int (ascii ''1'') = Some m"
      "py_int (ascii ''1'') = Some d"
      "date_slug_of ?t = (if valid_date y m d then isoformat y m d else [])"
    by blast
  then show ?thesis
    by (simp add: py_int_samples) (simp add: valid_date_def days_in_month_def isoformat_def dec_digit_def ascii_def)
qed

section \<open>The crawl frontier\<close>

text \<open>
  \<^verbatim>\<open>
  def parse_page_html(html, url):
      soup = BeautifulSoup(html, "lxml")
      title_el = soup.find(["h1","h2"])
      title = title_el.get_text(" ", strip=True) if title_el else ""
      text = extract_article_text(soup)
      return {"url": url, "title": title, "text": text, "soup": soup}
  \<close>
  A row of the output is this dictionary without its \<open>soup\<close> and with the \<open>date_slug\<close>
  that \<open>main\<close> adds.
\<close>

record row =
  row_url :: ustr
  row_title :: ustr
  row_text :: ustr
  date_slug :: ustr

definition parse_page_html :: "soup \<Rightarrow> ustr \<Rightarrow> row" where
  "parse_page_html soup url =
     \<lparr> row_url = url,
       row_title = (case heading soup of Some t \<Rightarrow> t | None \<Rightarrow> []),
       row_text = extract_article_text soup,
       date_slug = [] \<rparr>"

text \<open>
  What the run depends on and does not compute itself:
  \<^item> \<open>session\<close>: whether \<open>make_driver()\<close> returns a browser session or raises;
  \<^item> \<open>driver_get url\<close>: \<open>None\<close> when \<open>driver.get(url)\<close> raises, otherwise the page that
    \<open>driver.page_source\<close> holds after the wait, parsed;
  \<^item> \<open>urljoin\<close>: the library's URL resolution;
  \<^item> \<open>sort_values\<close>: the data-frame library's sort of the dated rows.
\<close>

record env =
  session :: bool
  driver_get :: "ustr \<Rightarrow> soup option"
  urljoin :: "ustr \<Rightarrow> ustr \<Rightarrow> ustr"
  sort_values :: "row list \<Rightarrow> row list"

definition DAYS_BACK :: nat where
  "DAYS_BACK = 30"

definition MAX_PAGES :: nat where
  "MAX_PAGES = DAYS_BACK * 2"

text \<open>
  The state of the loop of \<open>main\<close>: \<open>rows\<close>, \<open>visited\<close> and \<open>queue\<close>, and with them the
  list of the URLs that \<open>driver.get\<close> was called on, in the order of the calls.
\<close>

record crawl_state =
  rows :: "row list"
  visited :: "ustr fset"
  queue :: "ustr list"
  fetched :: "ustr list"

definition init :: crawl_state where
  "init = \<lparr> rows = [], visited = {||}, queue = [START_URL], fetched = [] \<rparr>"

text \<open>\<open>while queue and len(rows) < DAYS_BACK and len(visited) < MAX_PAGES\<close>\<close>

definition loop_cond :: "crawl_state \<Rightarrow> bool" where
  "loop_cond s \<longleftrightarrow>
     queue s \<noteq> [] \<and> length (rows s) < DAYS_BACK \<and> fcard (visited s) < MAX_PAGES"

text \<open>
  \<^verbatim>\<open>
  for u in prev_links:
      if u not in visited and u not in queue:
          queue.append(u)
  \<close>
\<close>

fun enqueue :: "ustr fset \<Rightarrow> ustr list \<Rightarrow> ustr list \<Rightarrow> ustr list" where
  "enqueue vis q [] = q"
| "enqueue vis q (u # us) =
     enqueue vis (if u |\<notin>| vis \<and> u \<notin> set q then q @ [u] else q) us"

text \<open>
  One iteration of the loop, for a state that satisfies the loop condition (so that
  \<open>queue.pop(0)\<close> has an element to pop):
  \<^verbatim>\<open>
  url = queue.pop(0)
  if url in visited:
      continue
  visited.add(url)
  try:
      driver.get(url)
  except Exception as e:
      print(f"[WARN] driver.get failed for {url}: {e}")
      continue
  ...
  html = driver.page_source
  res = parse_page_html(html, url)
  soup = res.pop("soup")
  ...                                  # the date, see date_slug_of
  res["date_slug"] = date_slug
  rows.append(res)
  prev_links = find_prev_day_links(soup, url)
  for u in prev_links: ...             # see enqueue
  human_wait(1.2, 3.0)
  \<close>
\<close>

definition step :: "env \<Rightarrow> crawl_state \<Rightarrow> crawl_state" where
  "step e s =
     (case queue s of
        [] \<Rightarrow> s
      | url # rest \<Rightarrow>
          if url |\<in>| visited s then s\<lparr>queue := rest\<rparr>
          else
            (case driver_get e url of
               None \<Rightarrow>
                 s\<lparr>visited := finsert url (visited s), queue := rest,
                   fetched := fetched s @ [url]\<rparr>
             | Some soup \<Rightarrow>
                 (let res = parse_page_html soup url;
                      res = res\<lparr>date_slug := date_slug_of (row_title res)\<rparr>;
                      prev_links = find_prev_day_links (urljoin e) soup url
                  in s\<lparr>rows := rows s @ [res],
                       visited := finsert url (visited s),
                       queue := enqueue (finsert url (visited s)) rest prev_links,
                       fetched := fetched s @ [url]\<rparr>)))"

lemma step_decreases:
  assumes "loop_cond s"
  shows "((e, step e s), (e, s)) \<in>
           measures [\<lambda>(e, s). MAX_PAGES - fcard (visited s), \<lambda>(e, s). length (queue s)]"
proof -
  from assms obtain url rest where q: "queue s = url # rest"
    by (cases "queue s") (auto simp: loop_cond_def)
  from assms have c: "fcard (visited s) < MAX_PAGES" by (simp add: loop_cond_def)
  show ?thesis
  proof (cases "url |\<in>| visited s")
    case True
    then show ?thesis by (simp add: step_def q)
  next
    case False
    then have "fcard (finsert url (visited s)) = Suc (fcard (visited s))"
      by (simp add: fcard_finsert_disjoint)
    with c False show ?thesis
      by (auto simp: step_def q Let_def split: option.splits)
  qed
qed

text \<open>The loop. It terminates from every state, whatever the pages are.\<close>

function crawl :: "env \<Rightarrow> crawl_state \<Rightarrow> crawl_state" where
  "crawl e s = (if loop_cond s then crawl e (step e s) else s)"
  by pat_completeness auto
termination
proof (relation "measures [\<lambda>(e, s). MAX_PAGES - fcard (visited s), \<lambda>(e, s). length (queue s)]")
  show "wf (measures [\<lambda>(e, s). MAX_PAGES - fcard (visited s), \<lambda>(e, s). length (queue s)])"
    by simp
next
  fix e s
  assume "loop_cond s"
  then show "((e, step e s), (e, s)) \<in>
      measures [\<lambda>(e, s). MAX_PAGES - fcard (visited s), \<lambda>(e, s). length (queue s)]"
    by (rule step_decreases)
qed

declare crawl.simps [simp del]


subsection \<open>Reachable states and the invariant of the frontier\<close>

text \<open>The states of the loop: the initial one, and those an iteration leads to.\<close>

inductive reach :: "env \<Rightarrow> crawl_state \<Rightarrow> bool" for e :: env where
  reach_init: "reach e init"
| reach_step: "reach e s \<Longrightarrow> loop_cond s \<Longrightarrow> reach e (step e s)"

text \<open>
  The invariant: the queue has no repetitions and holds no visited URL, no URL was
  fetched twice, the fetched URLs are the visited ones, and the rows are rows of fetched
  URLs, one each.
\<close>

definition frontier_inv :: "crawl_state \<Rightarrow> bool" where
  "frontier_inv s \<longleftrightarrow>
     distinct (queue s) \<and> fset (visited s) \<inter> set (queue s) = {} \<and>
     distinct (fetched s) \<and> set (fetched s) = fset (visited s) \<and>
     distinct (map row_url (rows s)) \<and> set (map row_url (rows s)) \<subseteq> set (fetched s)"

lemma set_enqueue: "set (enqueue vis q us) = set q \<union> (set us - fset vis)"
  by (induction us arbitrary: q) auto

lemma distinct_enqueue: "distinct q \<Longrightarrow> distinct (enqueue vis q us)"
  by (induction us arbitrary: q) auto

lemma frontier_inv_init: "frontier_inv init"
  by (simp add: frontier_inv_def init_def)

lemma parse_page_html_url [simp]: "row_url (parse_page_html soup url) = url"
  by (simp add: parse_page_html_def)

lemma frontier_inv_step:
  assumes "frontier_inv s" and "loop_cond s"
  shows "frontier_inv (step e s)"
proof -
  from assms(2) obtain url rest where q: "queue s = url # rest"
    by (cases "queue s") (auto simp: loop_cond_def)
  from assms(1) q have nv: "url |\<notin>| visited s" and dr: "distinct rest" and ur: "url \<notin> set rest"
    and vr: "fset (visited s) \<inter> set rest = {}"
    and df: "distinct (fetched s)" and fv: "set (fetched s) = fset (visited s)"
    and du: "distinct (map row_url (rows s))"
    and su: "set (map row_url (rows s)) \<subseteq> set (fetched s)"
    by (auto simp: frontier_inv_def)
  show ?thesis
  proof (cases "driver_get e url")
    case None
    then have "step e s = s\<lparr>visited := finsert url (visited s), queue := rest,
                   fetched := fetched s @ [url]\<rparr>"
      using nv by (simp add: step_def q)
    then show ?thesis
      using nv dr ur vr df fv du su by (auto simp: frontier_inv_def)
  next
    case (Some soup)
    let ?q = "enqueue (finsert url (visited s)) rest (find_prev_day_links (urljoin e) soup url)"
    have st: "step e s =
        s\<lparr>rows := rows s @ [(parse_page_html soup url)
                  \<lparr>date_slug := date_slug_of (row_title (parse_page_html soup url))\<rparr>],
          visited := finsert url (visited s), queue := ?q, fetched := fetched s @ [url]\<rparr>"
      using nv Some by (simp add: step_def q Let_def)
    have "distinct ?q" using dr by (rule distinct_enqueue)
    moreover have "fset (finsert url (visited s)) \<inter> set ?q = {}"
      using vr ur by (auto simp: set_enqueue)
    moreover have "url \<notin> set (fetched s)" using nv fv by simp
    ultimately show ?thesis
      unfolding st using df fv du su by (auto simp: frontier_inv_def)
  qed
qed

lemma reach_inv: "reach e s \<Longrightarrow> frontier_inv s"
  by (induction rule: reach.induct) (auto intro: frontier_inv_init frontier_inv_step)

lemma reach_crawl: "reach e s \<Longrightarrow> reach e (crawl e s)"
proof (induction e s rule: crawl.induct)
  case (1 e s)
  show ?case
  proof (cases "loop_cond s")
    case True
    then have "reach e (step e s)" using "1.prems" by (rule reach_step[rotated])
    with "1.IH"[OF True] True show ?thesis by (simp add: crawl.simps[of e s])
  next
    case False
    with "1.prems" show ?thesis by (simp add: crawl.simps[of e s])
  qed
qed



lemma step_visited:
  assumes "frontier_inv s" and "loop_cond s"
  shows "visited (step e s) = finsert (hd (queue s)) (visited s)"
    and "hd (queue s) |\<notin>| visited s"
    and "hd (queue s) \<notin> set (queue (step e s))"
    and "length (rows (step e s)) \<le> Suc (length (rows s))"
proof -
  from assms(2) obtain url rest where q: "queue s = url # rest"
    by (cases "queue s") (auto simp: loop_cond_def)
  from assms(1) q have nv: "url |\<notin>| visited s" and ur: "url \<notin> set rest"
    by (auto simp: frontier_inv_def)
  show "visited (step e s) = finsert (hd (queue s)) (visited s)"
    using nv by (simp add: step_def q Let_def split: option.splits)
  show "hd (queue s) |\<notin>| visited s" using nv by (simp add: q)
  show "hd (queue s) \<notin> set (queue (step e s))"
    using nv ur by (auto simp: step_def q Let_def set_enqueue split: option.splits)
  show "length (rows (step e s)) \<le> Suc (length (rows s))"
    by (simp add: step_def q Let_def split: option.splits)
qed






section \<open>The aggregator and the whole run\<close>

text \<open>
  \<^verbatim>\<open>
  df = pd.DataFrame(rows).drop_duplicates(subset=["url"])
  if "date_slug" in df.columns and df["date_slug"].str.len().gt(0).any():
      df_valid = df[df["date_slug"].str.len()>0].copy()
      df_valid["date_slug"] = pd.to_datetime(df_valid["date_slug"])
      df_valid = df_valid.sort_values("date_slug", ascending=False).head(DAYS_BACK)
      out = df_valid
  else:
      out = df.head(DAYS_BACK)
  out.to_csv(...)
  \<close>
  The data frame is the list of its rows. A frame made of no rows has no columns, and
  \<open>drop_duplicates\<close> returns an empty frame as it is.
\<close>

datatype error = SessionNotCreated | DateNotParsed

text \<open>
  \<open>drop_duplicates(subset=["url"])\<close> keeps, of the rows with the same \<open>url\<close>, the first;
  \<open>seen\<close> holds the values of \<open>url\<close> met so far.
\<close>

fun drop_duplicates :: "ustr set \<Rightarrow> row list \<Rightarrow> row list" where
  "drop_duplicates seen [] = []"
| "drop_duplicates seen (r # rs) =
     (if row_url r \<in> seen then drop_duplicates seen rs
      else r # drop_duplicates (insert (row_url r) seen) rs)"

text \<open>
  \<open>pd.to_datetime\<close> on a string \<open>YYYY-MM-DD\<close>, as \<open>isoformat\<close> writes it: the calendar date
  it denotes. Time stamps are compared as the triples of year, month and day. The
  library's treatment of other strings, and the limits that some of its versions put on
  the year, are not modelled: a string of another shape counts as a failed conversion.
\<close>

definition to_datetime :: "ustr \<Rightarrow> (nat \<times> nat \<times> nat) option" where
  "to_datetime s =
     (if length s = 10 \<and> s ! 4 = 45 \<and> s ! 7 = 45 then
        (case py_int (take 4 s) of
           None \<Rightarrow> None
         | Some y \<Rightarrow>
             (case py_int (take 2 (drop 5 s)) of
                None \<Rightarrow> None
              | Some m \<Rightarrow>
                  (case py_int (take 2 (drop 8 s)) of
                     None \<Rightarrow> None
                   | Some d \<Rightarrow> if valid_date y m d then Some (y, m, d) else None)))
      else None)"

definition date_key :: "row \<Rightarrow> (nat \<times> nat \<times> nat) option" where
  "date_key r = to_datetime (date_slug r)"

text \<open>
  The aggregation, with the library's sort \<open>srt\<close> for
  \<open>sort_values("date_slug", ascending=False)\<close>.
\<close>

definition aggregate :: "(row list \<Rightarrow> row list) \<Rightarrow> row list \<Rightarrow> error + row list" where
  "aggregate srt rs =
     (let df = drop_duplicates {} rs in
      if rs \<noteq> [] \<and> (\<exists>r \<in> set df. date_slug r \<noteq> []) then
        (let df_valid = filter (\<lambda>r. date_slug r \<noteq> []) df in
         if \<exists>r \<in> set df_valid. to_datetime (date_slug r) = None then Inl DateNotParsed
         else Inr (take DAYS_BACK (srt df_valid)))
      else Inr (take DAYS_BACK df))"

text \<open>
  \<^verbatim>\<open>
  def main():
      driver = make_driver()
      try:
          ...                      # the loop, then the aggregation
          out.to_csv(...)
      finally:
          driver.quit()
  \<close>
  The result of a run is the list of the rows it writes to the export file, or the error
  it ends with.
\<close>

definition main :: "env \<Rightarrow> error + row list" where
  "main e =
     (if \<not> session e then Inl SessionNotCreated
      else aggregate (sort_values e) (rows (crawl e init)))"

text \<open>
  What is assumed of the library's sort: it returns the rows it was given, in an order in
  which the dates do not increase. Its default algorithm is not stable, so nothing is
  assumed about rows of the same date.
\<close>

definition sorts_descending :: "(row list \<Rightarrow> row list) \<Rightarrow> bool" where
  "sorts_descending srt \<longleftrightarrow>
     (\<forall>xs. mset (srt xs) = mset xs \<and> sorted_wrt (\<lambda>a b. date_key b \<le> date_key a) (srt xs))"

text \<open>A stable sort of this kind: reverse, sort upwards keeping ties in place, reverse.\<close>

definition sort_values_stable :: "row list \<Rightarrow> row list" where
  "sort_values_stable xs = rev (sort_key date_key (rev xs))"


subsection \<open>The steps of the aggregation\<close>

text \<open>
  Deduplication by \<open>url\<close> that keeps the first occurrence, said directly: a row stays
  when no row before it has its \<open>url\<close>.
\<close>

definition first_by_url :: "row list \<Rightarrow> row list" where
  "first_by_url rs = [rs ! i. i \<leftarrow> [0 ..< length rs], row_url (rs ! i) \<notin> row_url ` set (take i rs)]"

text \<open>
  The rows that the loop produces have a \<open>date_slug\<close> that is empty or the ISO form of a
  calendar date.
\<close>

definition well_formed_rows :: "row list \<Rightarrow> bool" where
  "well_formed_rows rs \<longleftrightarrow>
     (\<forall>r \<in> set rs. date_slug r = [] \<or> (\<exists>y m d. valid_date y m d \<and> date_slug r = isoformat y m d))"

lemma drop_duplicates_first:
  "drop_duplicates seen rs =
     [rs ! i. i \<leftarrow> [0 ..< length rs], row_url (rs ! i) \<notin> seen \<union> row_url ` set (take i rs)]"
proof (induction rs arbitrary: seen)
  case Nil
  then show ?case by simp
next
  case (Cons r rs)
  have "[(r # rs) ! i. i \<leftarrow> [0 ..< length (r # rs)],
            row_url ((r # rs) ! i) \<notin> seen \<union> row_url ` set (take i (r # rs))]
        = (if row_url r \<notin> seen then [r] else []) @
          [rs ! i. i \<leftarrow> [0 ..< length rs],
             row_url (rs ! i) \<notin> insert (row_url r) seen \<union> row_url ` set (take i rs)]"
    by (simp add: upt_conv_Cons map_Suc_upt[symmetric] o_def conj_ac del: upt_Suc cong: if_cong)
  also have "\<dots> = drop_duplicates seen (r # rs)"
    using Cons.IH[of "insert (row_url r) seen"] Cons.IH[of seen] by (auto simp: insert_absorb)
  finally show ?case by simp
qed

lemma drop_duplicates_first_by_url: "drop_duplicates {} rs = first_by_url rs"
  by (simp add: first_by_url_def drop_duplicates_first)

lemma set_drop_duplicates: "set (drop_duplicates seen rs) \<subseteq> set rs"
  by (induction rs arbitrary: seen) auto

lemma urls_drop_duplicates:
  "row_url ` set (drop_duplicates seen rs) = row_url ` set rs - seen"
  by (induction rs arbitrary: seen) auto

lemma distinct_drop_duplicates: "distinct (map row_url (drop_duplicates seen rs))"
  by (induction rs arbitrary: seen) (auto simp: urls_drop_duplicates)

lemma drop_duplicates_distinct:
  "distinct (map row_url rs) \<Longrightarrow> row_url ` set rs \<inter> seen = {} \<Longrightarrow> drop_duplicates seen rs = rs"
  by (induction rs arbitrary: seen) auto

lemma digit_value_dec_digit: "digit_value (dec_digit n) = Some (n mod 10)"
proof -
  have "48 \<le> dec_digit n \<and> dec_digit n < 48 + 10" by (simp add: dec_digit_def)
  then show ?thesis by (simp add: digit_value_def digit_zeros_def dec_digit_def)
qed

lemma div_100: "(y::nat) div 100 = y div 10 div 10" by (simp add: div_mult2_eq)
lemma div_1000: "(y::nat) div 1000 = y div 10 div 10 div 10" by (simp add: div_mult2_eq)

lemma dec4_sum:
  "((y div 1000 * 10 + y div 100 mod 10) * 10 + y div 10 mod 10) * 10 + y mod 10 = (y::nat)"
  unfolding div_100 div_1000 by simp

lemma py_int_dec4:
  "y \<le> 9999 \<Longrightarrow>
   py_int [dec_digit (y div 1000), dec_digit (y div 100), dec_digit (y div 10), dec_digit y] = Some y"
proof -
  assume "y \<le> 9999"
  then have "y div 1000 mod 10 = y div 1000" by simp
  then have "py_int [dec_digit (y div 1000), dec_digit (y div 100), dec_digit (y div 10), dec_digit y]
      = Some (((y div 1000 * 10 + y div 100 mod 10) * 10 + y div 10 mod 10) * 10 + y mod 10)"
    by (simp add: py_int_def digit_value_dec_digit mult.commute)
  then show ?thesis by (simp only: dec4_sum)
qed

lemma py_int_dec2:
  "m \<le> 99 \<Longrightarrow> py_int [dec_digit (m div 10), dec_digit m] = Some m"
proof -
  assume "m \<le> 99"
  then have "m div 10 mod 10 = m div 10" by simp
  then show ?thesis by (simp add: py_int_def digit_value_dec_digit)
qed

lemma valid_date_bounds: "valid_date y m d \<Longrightarrow> y \<le> 9999 \<and> m \<le> 99 \<and> d \<le> 99"
  by (auto simp: valid_date_def days_in_month_def split: if_splits)

lemma to_datetime_isoformat:
  "valid_date y m d \<Longrightarrow> to_datetime (isoformat y m d) = Some (y, m, d)"
proof -
  assume v: "valid_date y m d"
  from valid_date_bounds[OF v] have b: "y \<le> 9999" "m \<le> 99" "d \<le> 99" by simp_all
  show ?thesis
    using v py_int_dec4[OF b(1)] py_int_dec2[OF b(2)] py_int_dec2[OF b(3)]
    by (simp add: to_datetime_def isoformat_def)
qed

lemma isoformat_nonempty: "isoformat y m d \<noteq> []"
  by (simp add: isoformat_def)

lemma well_formed_parsed:
  "well_formed_rows rs \<Longrightarrow> r \<in> set rs \<Longrightarrow> date_slug r \<noteq> [] \<Longrightarrow> to_datetime (date_slug r) \<noteq> None"
  by (auto simp: well_formed_rows_def to_datetime_isoformat)

lemma well_formed_subset:
  "well_formed_rows rs \<Longrightarrow> set qs \<subseteq> set rs \<Longrightarrow> well_formed_rows qs"
  by (auto simp: well_formed_rows_def)

lemma sorts_descending_stable: "sorts_descending sort_values_stable"
proof -
  have "sorted_wrt (\<lambda>a b. date_key b \<le> date_key a) (sort_values_stable xs)" for xs
  proof -
    have "sorted (map date_key (sort_key date_key (rev xs)))" by (rule sorted_sort_key)
    then have "sorted_wrt (\<lambda>a b. date_key a \<le> date_key b) (sort_key date_key (rev xs))"
      by (simp add: sorted_wrt_map)
    then show ?thesis by (simp add: sort_values_stable_def sorted_wrt_rev)
  qed
  moreover have "mset (sort_values_stable xs) = mset xs" for xs
    by (simp add: sort_values_stable_def)
  ultimately show ?thesis by (simp add: sorts_descending_def)
qed

lemma sorts_descending_props:
  assumes "sorts_descending srt"
  shows "mset (srt xs) = mset xs" and "set (srt xs) = set xs" and "length (srt xs) = length xs"
    and "sorted_wrt (\<lambda>a b. date_key b \<le> date_key a) (srt xs)"
    and "distinct (map f (srt xs)) = distinct (map f xs)"
proof -
  show m: "mset (srt xs) = mset xs" using assms by (simp add: sorts_descending_def)
  show "set (srt xs) = set xs" using m by (rule mset_eq_setD)
  show "length (srt xs) = length xs" using m by (rule mset_eq_length)
  show "sorted_wrt (\<lambda>a b. date_key b \<le> date_key a) (srt xs)"
    using assms by (simp add: sorts_descending_def)
  have "mset (map f (srt xs)) = mset (map f xs)" using m by simp
  then show "distinct (map f (srt xs)) = distinct (map f xs)" by (rule mset_eq_imp_distinct_iff)
qed

lemma sorted_desc_unique:
  assumes "sorted_wrt (\<lambda>a b. date_key b \<le> date_key a) xs"
    and "sorted_wrt (\<lambda>a b. date_key b \<le> date_key a) ys"
    and "mset xs = mset ys" and "distinct (map date_key xs)"
  shows "xs = ys"
proof -
  have mk: "mset (map date_key xs) = mset (map date_key ys)" using assms(3) by simp
  then have dy: "distinct (map date_key ys)"
    using assms(4) mset_eq_imp_distinct_iff by blast
  have sx: "sorted (rev (map date_key xs))"
    using assms(1) by (simp add: sorted_wrt_rev sorted_wrt_map rev_map[symmetric])
  have sy: "sorted (rev (map date_key ys))"
    using assms(2) by (simp add: sorted_wrt_rev sorted_wrt_map rev_map[symmetric])
  have "set (rev (map date_key xs)) = set (rev (map date_key ys))"
    using mk by (metis mset_eq_setD set_rev)
  with sx sy assms(4) dy have "rev (map date_key xs) = rev (map date_key ys)"
    by (intro sorted_distinct_set_unique) simp_all
  then have e: "map date_key xs = map date_key ys" by simp
  have "inj_on date_key (set xs)" using assms(4) by (simp add: distinct_map)
  moreover have "set ys = set xs" using assms(3) by (metis mset_eq_setD)
  ultimately have "inj_on date_key (set xs \<union> set ys)" by simp
  with e show ?thesis by (rule map_inj_on)
qed

lemma take_sorted_top:
  assumes "sorted_wrt R xs" and "a \<in> set (take n xs)" and "r \<in> set (drop n xs)"
  shows "R a r"
proof -
  have "sorted_wrt R (take n xs @ drop n xs)" using assms(1) by simp
  then show ?thesis using assms(2,3) unfolding sorted_wrt_append by blast
qed

lemma DAYS_BACK_pos: "0 < DAYS_BACK"
  by (simp add: DAYS_BACK_def)

lemma aggregate_dated:
  assumes "sorts_descending srt" and "well_formed_rows rs"
    and "\<exists>r \<in> set (first_by_url rs). date_slug r \<noteq> []"
  shows "aggregate srt rs =
           Inr (take DAYS_BACK (srt (filter (\<lambda>r. date_slug r \<noteq> []) (first_by_url rs))))"
proof -
  have ne: "rs \<noteq> []" using assms(3) by (auto simp: first_by_url_def)
  have sub: "set (first_by_url rs) \<subseteq> set rs"
    unfolding drop_duplicates_first_by_url[symmetric] by (rule set_drop_duplicates)
  have "\<not> (\<exists>r \<in> set (filter (\<lambda>r. date_slug r \<noteq> []) (first_by_url rs)). to_datetime (date_slug r) = None)"
    using well_formed_parsed[OF assms(2)] sub by auto
  then show ?thesis
    using ne assms(3) by (simp add: aggregate_def drop_duplicates_first_by_url Let_def)
qed

lemma aggregate_undated:
  assumes "\<not> (\<exists>r \<in> set (first_by_url rs). date_slug r \<noteq> [])"
  shows "aggregate srt rs = Inr (take DAYS_BACK (first_by_url rs))"
  using assms by (simp add: aggregate_def drop_duplicates_first_by_url Let_def)

lemma first_by_url_props:
  "set (first_by_url rs) \<subseteq> set rs" "distinct (map row_url (first_by_url rs))"
  unfolding drop_duplicates_first_by_url[symmetric]
  by (rule set_drop_duplicates, rule distinct_drop_duplicates)

lemma first_by_url_distinct: "distinct (map row_url rs) \<Longrightarrow> first_by_url rs = rs"
  unfolding drop_duplicates_first_by_url[symmetric] by (rule drop_duplicates_distinct) simp_all

lemma distinct_map_take: "distinct (map f xs) \<Longrightarrow> distinct (map f (take n xs))"
  by (simp add: take_map[symmetric])

lemma set_take_drop: "set (take n xs) \<union> set (drop n xs) = set xs"
  by (simp flip: set_append)


subsection \<open>The rows of a run\<close>


text \<open>
  What holds of the rows in every state of the loop: their dates are well formed, and
  each is the row of a URL whose fetch succeeded.
\<close>

definition rows_inv :: "env \<Rightarrow> crawl_state \<Rightarrow> bool" where
  "rows_inv e s \<longleftrightarrow>
     well_formed_rows (rows s) \<and> (\<forall>r \<in> set (rows s). driver_get e (row_url r) \<noteq> None)"

lemma rows_inv_step:
  assumes "rows_inv e s"
  shows "rows_inv e (step e s)"
proof (cases "queue s")
  case Nil
  with assms show ?thesis by (simp add: step_def)
next
  case (Cons url rest)
  show ?thesis
  proof (cases "url |\<in>| visited s")
    case True
    with assms Cons show ?thesis by (simp add: step_def rows_inv_def)
  next
    case False
    show ?thesis
    proof (cases "driver_get e url")
      case None
      with assms Cons False show ?thesis by (simp add: step_def rows_inv_def)
    next
      case (Some soup)
      let ?r = "(parse_page_html soup url)\<lparr>date_slug := date_slug_of (row_title (parse_page_html soup url))\<rparr>"
      have r: "rows (step e s) = rows s @ [?r]"
        using Cons False Some by (simp add: step_def Let_def)
      have "date_slug ?r = [] \<or> (\<exists>y m d. valid_date y m d \<and> date_slug ?r = isoformat y m d)"
        using date_slug_of_shape[of "row_title (parse_page_html soup url)"] by simp
      moreover have "driver_get e (row_url ?r) \<noteq> None" using Some by simp
      ultimately show ?thesis using assms unfolding r rows_inv_def well_formed_rows_def by auto
    qed
  qed
qed

lemma reach_rows_inv: "reach e s \<Longrightarrow> rows_inv e s"
proof (induction rule: reach.induct)
  case reach_init
  then show ?case by (simp add: rows_inv_def well_formed_rows_def init_def)
next
  case (reach_step s)
  then show ?case by (simp add: rows_inv_step)
qed



lemma crawl_rows_well_formed: "well_formed_rows (rows (crawl e init))"
  using reach_rows_inv[OF reach_crawl[OF reach_init], of e] by (simp add: rows_inv_def)

section \<open>Sample runs\<close>

text \<open>
  Three bulletins: the seed's, dated 20.10.2025, links to those of the 18th and the 19th,
  in this order; they link to each other and back to the seed. Every other URL fails to
  load.
\<close>

definition page_20 :: soup where
  "page_20 = \<lparr> heading = Some (ascii ''Update 08:00 20.10.2025''),
     article_paragraphs = Some [ascii ''Day 20.''], main_paragraphs = [],
     anchors = [URL_18, URL_19] \<rparr>"

definition page_19 :: soup where
  "page_19 = \<lparr> heading = Some (ascii ''Update 08:00 19.10.2025''),
     article_paragraphs = Some [ascii ''Day 19.''], main_paragraphs = [],
     anchors = [URL_18, START_URL] \<rparr>"

definition page_18 :: soup where
  "page_18 = \<lparr> heading = Some (ascii ''Update 08:00 18.10.2025''),
     article_paragraphs = Some [ascii ''Day 18.''], main_paragraphs = [],
     anchors = [URL_19] \<rparr>"

definition three_days :: env where
  "three_days = \<lparr> session = True,
     driver_get = (\<lambda>u. if u = START_URL then Some page_20
                       else if u = URL_19 then Some page_19
                       else if u = URL_18 then Some page_18 else None),
     urljoin = urljoin_absolute,
     sort_values = sort_values_stable \<rparr>"

definition row_20 :: row where
  "row_20 = \<lparr> row_url = START_URL, row_title = ascii ''Update 08:00 20.10.2025'',
     row_text = extract_article_text page_20, date_slug = ascii ''2025-10-20'' \<rparr>"

definition row_19 :: row where
  "row_19 = \<lparr> row_url = URL_19, row_title = ascii ''Update 08:00 19.10.2025'',
     row_text = extract_article_text page_19, date_slug = ascii ''2025-10-19'' \<rparr>"

definition row_18 :: row where
  "row_18 = \<lparr> row_url = URL_18, row_title = ascii ''Update 08:00 18.10.2025'',
     row_text = extract_article_text page_18, date_slug = ascii ''2025-10-18'' \<rparr>"

lemma page_slugs:
  "date_slug_of (ascii ''Update 08:00 20.10.2025'') = ascii ''2025-10-20''"
  "date_slug_of (ascii ''Update 08:00 19.10.2025'') = ascii ''2025-10-19''"
  "date_slug_of (ascii ''Update 08:00 18.10.2025'') = ascii ''2025-10-18''"
  by (simp_all add: date_eval)

lemma page_headings:
  "heading page_20 = Some (ascii ''Update 08:00 20.10.2025'')"
  "heading page_19 = Some (ascii ''Update 08:00 19.10.2025'')"
  "heading page_18 = Some (ascii ''Update 08:00 18.10.2025'')"
  by (simp_all add: page_20_def page_19_def page_18_def)

lemma page_links:
  "find_prev_day_links urljoin_absolute page_20 u = [URL_18, URL_19]"
  "find_prev_day_links urljoin_absolute page_19 u = [URL_18, START_URL]"
  "find_prev_day_links urljoin_absolute page_18 u = [URL_19]"
  by (simp_all add: find_prev_day_links_def page_20_def page_19_def page_18_def url_slugs
      start_url_slugs url_distinct urljoin_absolute_def)

lemma three_days_step_1:
  "step three_days init =
     \<lparr> rows = [row_20], visited = {|START_URL|}, queue = [URL_18, URL_19], fetched = [START_URL] \<rparr>"
  by (simp add: step_def init_def three_days_def Let_def parse_page_html_def page_slugs page_links
      page_headings row_20_def url_distinct)

lemma three_days_step_2:
  "step three_days
     \<lparr> rows = [row_20], visited = {|START_URL|}, queue = [URL_18, URL_19], fetched = [START_URL] \<rparr> =
     \<lparr> rows = [row_20, row_18], visited = {|URL_18, START_URL|}, queue = [URL_19],
       fetched = [START_URL, URL_18] \<rparr>"
  by (simp add: step_def three_days_def Let_def parse_page_html_def page_slugs page_links
      page_headings row_18_def url_distinct)

lemma three_days_step_3:
  "step three_days
     \<lparr> rows = [row_20, row_18], visited = {|URL_18, START_URL|}, queue = [URL_19],
       fetched = [START_URL, URL_18] \<rparr> =
     \<lparr> rows = [row_20, row_18, row_19], visited = {|URL_19, URL_18, START_URL|}, queue = [],
       fetched = [START_URL, URL_18, URL_19] \<rparr>"
  by (simp add: step_def three_days_def Let_def parse_page_html_def page_slugs page_links
      page_headings row_19_def url_distinct)

lemma three_days_conds:
  "loop_cond init"
  "loop_cond \<lparr> rows = [row_20], visited = {|START_URL|}, queue = [URL_18, URL_19], fetched = [START_URL] \<rparr>"
  "loop_cond \<lparr> rows = [row_20, row_18], visited = {|URL_18, START_URL|}, queue = [URL_19],
       fetched = [START_URL, URL_18] \<rparr>"
  "\<not> loop_cond \<lparr> rows = [row_20, row_18, row_19], visited = {|URL_19, URL_18, START_URL|}, queue = [],
       fetched = [START_URL, URL_18, URL_19] \<rparr>"
  by (simp_all add: loop_cond_def init_def DAYS_BACK_def MAX_PAGES_def fcard_fempty
      fcard_finsert_if url_distinct)

lemma three_days_crawl:
  "crawl three_days init =
     \<lparr> rows = [row_20, row_18, row_19], visited = {|URL_19, URL_18, START_URL|}, queue = [],
       fetched = [START_URL, URL_18, URL_19] \<rparr>"
proof -
  let ?s1 = "\<lparr> rows = [row_20], visited = {|START_URL|}, queue = [URL_18, URL_19], fetched = [START_URL] \<rparr>"
  let ?s2 = "\<lparr> rows = [row_20, row_18], visited = {|URL_18, START_URL|}, queue = [URL_19],
       fetched = [START_URL, URL_18] \<rparr>"
  let ?s3 = "\<lparr> rows = [row_20, row_18, row_19], visited = {|URL_19, URL_18, START_URL|}, queue = [],
       fetched = [START_URL, URL_18, URL_19] \<rparr>"
  have "crawl three_days init = crawl three_days ?s1"
    using three_days_conds(1) by (simp add: crawl.simps[of three_days init] three_days_step_1)
  also have "\<dots> = crawl three_days ?s2"
    using three_days_conds(2) by (simp add: crawl.simps[of three_days ?s1] three_days_step_2)
  also have "\<dots> = crawl three_days ?s3"
    using three_days_conds(3) by (simp add: crawl.simps[of three_days ?s2] three_days_step_3)
  also have "\<dots> = ?s3"
    using three_days_conds(4) by (simp add: crawl.simps[of three_days ?s3])
  finally show ?thesis .
qed

definition three_rows :: "row list" where
  "three_rows = [row_20, row_18, row_19]"

lemma row_keys:
  "date_key row_20 = Some (2025, 10, 20)"
  "date_key row_19 = Some (2025, 10, 19)"
  "date_key row_18 = Some (2025, 10, 18)"
  by (simp_all add: date_key_def to_datetime_def row_20_def row_19_def row_18_def ascii_def
      py_int_def digit_value_def digit_zeros_def valid_date_def days_in_month_def is_leap_def)

lemma row_slugs:
  "date_slug row_20 = isoformat 2025 10 20" "date_slug row_19 = isoformat 2025 10 19"
  "date_slug row_18 = isoformat 2025 10 18"
  "valid_date 2025 10 20" "valid_date 2025 10 19" "valid_date 2025 10 18"
  by (simp_all add: row_20_def row_19_def row_18_def ascii_def isoformat_def dec_digit_def
      valid_date_def days_in_month_def)

lemma row_urls:
  "row_url row_20 = START_URL" "row_url row_19 = URL_19" "row_url row_18 = URL_18"
  by (simp_all add: row_20_def row_19_def row_18_def)

lemma three_rows_well_formed: "well_formed_rows three_rows"
  unfolding well_formed_rows_def three_rows_def using row_slugs by auto

lemma three_rows_dedup: "first_by_url three_rows = three_rows"
  unfolding drop_duplicates_first_by_url[symmetric]
  by (simp add: three_rows_def row_urls url_distinct)

lemma three_rows_dated: "filter (\<lambda>r. date_slug r \<noteq> []) three_rows = three_rows"
  by (simp add: three_rows_def row_slugs isoformat_nonempty)

lemma three_rows_sorted: "sort_values_stable three_rows = [row_20, row_19, row_18]"
  by (simp add: sort_values_stable_def three_rows_def row_keys)



section \<open>The claims about the frontier, the run and the aggregator\<close>

subsection \<open>Claim C1: every URL is fetched at most once\<close>

text \<open>
  C1. In every state of the loop, after any number of iterations, no visited URL is in
  the queue and the queue has no repetitions; no URL has been fetched twice, and the
  fetched URLs are exactly the visited ones. An iteration takes the head of the queue,
  which is not yet visited, marks it visited and leaves no copy of it in the queue. So
  at the end of the loop too every URL has been fetched at most once, however often
  pages link to it.
\<close>

theorem frontier_visits_once:
  assumes "reach e s"
  shows "fset (visited s) \<inter> set (queue s) = {} \<and> distinct (queue s) \<and>
         distinct (fetched s) \<and> set (fetched s) = fset (visited s) \<and>
         (loop_cond s \<longrightarrow>
            hd (queue s) |\<notin>| visited s \<and> hd (queue s) |\<in>| visited (step e s) \<and>
            hd (queue s) \<notin> set (queue (step e s))) \<and>
         distinct (fetched (crawl e s))"
proof -
  have i: "frontier_inv s" using assms by (rule reach_inv)
  have "frontier_inv (crawl e s)" using reach_crawl[OF assms] by (rule reach_inv)
  moreover have "loop_cond s \<longrightarrow>
            hd (queue s) |\<notin>| visited s \<and> hd (queue s) |\<in>| visited (step e s) \<and>
            hd (queue s) \<notin> set (queue (step e s))"
    using step_visited(1)[OF i, of e] step_visited(2)[OF i] step_visited(3)[OF i, of e] by simp
  ultimately show ?thesis using i by (simp add: frontier_inv_def)
qed


text \<open>
  C1 on the three bulletins: after the first iteration the queue holds the two linked
  bulletins and shares nothing with the visited set, and over the whole run each of the
  three URLs is fetched once, though the bulletins of the 18th and 19th are linked twice.
\<close>

theorem frontier_visits_once_witness:
  "reach three_days (step three_days init) \<and>
   fset (visited (step three_days init)) \<inter> set (queue (step three_days init)) = {} \<and>
   queue (step three_days init) = [URL_18, URL_19] \<and>
   distinct (fetched (crawl three_days (step three_days init))) \<and>
   fetched (crawl three_days init) = [START_URL, URL_18, URL_19]"
proof -
  have r: "reach three_days (step three_days init)"
    using reach_init three_days_conds(1) by (rule reach_step)
  from frontier_visits_once[OF r]
  have "fset (visited (step three_days init)) \<inter> set (queue (step three_days init)) = {}"
    and "distinct (fetched (crawl three_days (step three_days init)))"
    by simp_all
  moreover have "queue (step three_days init) = [URL_18, URL_19]"
    by (simp add: three_days_step_1)
  moreover have "fetched (crawl three_days init) = [START_URL, URL_18, URL_19]"
    by (simp add: three_days_crawl)
  ultimately show ?thesis using r by simp
qed

subsection \<open>Claim C2: the loop terminates within its caps\<close>




subsection \<open>Claim C5: a failed fetch is skipped, and the run completes\<close>



subsection \<open>Claim C3: the final set\<close>

text \<open>
  C3. For a sort that orders by date, latest first, and rows as the loop produces them,
  the aggregation returns a final set, and it is this: the rows are deduplicated by
  \<open>url\<close>, the first occurrence staying; if one of them has a date, the dated ones are
  sorted and the first \<open>DAYS_BACK\<close> of them are the final set, so that it is in
  descending order of date, holds no undated row, and no dated row left out is later than
  one kept; otherwise the final set is the first \<open>DAYS_BACK\<close> deduplicated rows in their
  original order. In both cases no \<open>url\<close> occurs twice and every row is one of the input.
\<close>

theorem aggregate_final_set:
  assumes "sorts_descending srt" and "well_formed_rows rs"
  shows "\<exists>out. aggregate srt rs = Inr out \<and>
     (if \<exists>r \<in> set (first_by_url rs). date_slug r \<noteq> []
      then out = take DAYS_BACK (srt (filter (\<lambda>r. date_slug r \<noteq> []) (first_by_url rs))) \<and>
           sorted_wrt (\<lambda>a b. date_key b \<le> date_key a) out \<and>
           (\<forall>r \<in> set out. date_slug r \<noteq> []) \<and>
           length out = min DAYS_BACK (length (filter (\<lambda>r. date_slug r \<noteq> []) (first_by_url rs))) \<and>
           (\<forall>r \<in> set (filter (\<lambda>r. date_slug r \<noteq> []) (first_by_url rs)) - set out.
              \<forall>a \<in> set out. date_key r \<le> date_key a)
      else out = take DAYS_BACK (first_by_url rs)) \<and>
     distinct (map row_url out) \<and> set out \<subseteq> set rs"
proof (cases "\<exists>r \<in> set (first_by_url rs). date_slug r \<noteq> []")
  case True
  let ?D = "filter (\<lambda>r. date_slug r \<noteq> []) (first_by_url rs)"
  let ?out = "take DAYS_BACK (srt ?D)"
  note sp = sorts_descending_props[OF assms(1)]
  have a: "aggregate srt rs = Inr ?out" using assms True by (rule aggregate_dated)
  have s: "sorted_wrt (\<lambda>a b. date_key b \<le> date_key a) (srt ?D)" by (rule sp(4))
  then have s1: "sorted_wrt (\<lambda>a b. date_key b \<le> date_key a) ?out"
    by (rule sorted_wrt_take)
  have sub: "set ?out \<subseteq> set ?D" using sp(2)[of ?D] set_take_subset[of DAYS_BACK "srt ?D"] by simp
  then have d: "\<forall>r \<in> set ?out. date_slug r \<noteq> []" by auto
  have l: "length ?out = min DAYS_BACK (length ?D)" by (simp add: sp(3) min.commute)
  have t: "\<forall>r \<in> set ?D - set ?out. \<forall>a \<in> set ?out. date_key r \<le> date_key a"
  proof (intro ballI)
    fix r a assume r: "r \<in> set ?D - set ?out" and a: "a \<in> set ?out"
    from r have "r \<in> set (srt ?D)" by (simp add: sp(2))
    then have "r \<in> set (take DAYS_BACK (srt ?D)) \<union> set (drop DAYS_BACK (srt ?D))"
      by (simp only: set_take_drop)
    with r have "r \<in> set (drop DAYS_BACK (srt ?D))" by blast
    from take_sorted_top[OF s a this] show "date_key r \<le> date_key a" .
  qed
  have "distinct (map row_url ?D)"
    using first_by_url_props(2)[of rs] by (rule distinct_map_filter)
  then have "distinct (map row_url (srt ?D))" by (simp add: sp(5))
  then have u: "distinct (map row_url ?out)" by (rule distinct_map_take)
  have "set ?out \<subseteq> set rs" using sub first_by_url_props(1)[of rs] by auto
  have ss: "set ?out \<subseteq> set rs" using sub first_by_url_props(1)[of rs] by auto
  show ?thesis unfolding if_P[OF True]
    by (intro exI[of _ ?out] conjI a refl s1 d l t u ss)
next
  case False
  let ?out = "take DAYS_BACK (first_by_url rs)"
  have a: "aggregate srt rs = Inr ?out" using False by (rule aggregate_undated)
  have u: "distinct (map row_url ?out)"
    using first_by_url_props(2)[of rs] by (rule distinct_map_take)
  have ss: "set ?out \<subseteq> set rs"
    using first_by_url_props(1)[of rs] set_take_subset[of DAYS_BACK "first_by_url rs"] by blast
  show ?thesis unfolding if_not_P[OF False]
    by (intro exI[of _ ?out] conjI a refl u ss)
qed

text \<open>
  C3 on the rows of the three bulletins, discovered in the order 20th, 18th, 19th: the
  final set is in the order 20th, 19th, 18th, and it is what the whole run exports.
\<close>

theorem aggregate_final_set_witness:
  "aggregate sort_values_stable three_rows = Inr [row_20, row_19, row_18] \<and>
   main three_days = Inr [row_20, row_19, row_18]"
proof -
  from aggregate_final_set[OF sorts_descending_stable three_rows_well_formed]
  obtain out where a: "aggregate sort_values_stable three_rows = Inr out"
    and i: "if \<exists>r \<in> set (first_by_url three_rows). date_slug r \<noteq> []
      then out = take DAYS_BACK (sort_values_stable
                   (filter (\<lambda>r. date_slug r \<noteq> []) (first_by_url three_rows))) \<and>
           sorted_wrt (\<lambda>a b. date_key b \<le> date_key a) out \<and>
           (\<forall>r \<in> set out. date_slug r \<noteq> []) \<and>
           length out = min DAYS_BACK (length (filter (\<lambda>r. date_slug r \<noteq> []) (first_by_url three_rows))) \<and>
           (\<forall>r \<in> set (filter (\<lambda>r. date_slug r \<noteq> []) (first_by_url three_rows)) - set out.
              \<forall>a \<in> set out. date_key r \<le> date_key a)
      else out = take DAYS_BACK (first_by_url three_rows)"
    by blast
  have e: "\<exists>r \<in> set (first_by_url three_rows). date_slug r \<noteq> []"
    unfolding three_rows_dedup by (simp add: three_rows_def row_slugs isoformat_nonempty)
  from i[unfolded if_P[OF e]]
  have "out = take DAYS_BACK (sort_values_stable
                   (filter (\<lambda>r. date_slug r \<noteq> []) (first_by_url three_rows)))"
    by (rule conjunct1)
  also have "\<dots> = take DAYS_BACK [row_20, row_19, row_18]"
    by (simp only: three_rows_dedup three_rows_dated three_rows_sorted)
  also have "\<dots> = [row_20, row_19, row_18]" by (simp add: DAYS_BACK_def)
  finally have o: "out = [row_20, row_19, row_18]" .
  have g: "aggregate sort_values_stable three_rows = Inr [row_20, row_19, row_18]"
    using a unfolding o .
  have "session three_days" "sort_values three_days = sort_values_stable"
    by (simp_all add: three_days_def)
  moreover have "rows (crawl three_days init) = three_rows"
    by (simp add: three_days_crawl three_rows_def)
  ultimately have "main three_days = aggregate sort_values_stable three_rows"
    by (simp add: main_def)
  with g show ?thesis by (simp only: simp_thms)
qed

subsection \<open>Claim C9: aggregating twice\<close>

text \<open>
  C9. For a sort that orders by date, latest first, and rows as the loop produces them,
  aggregating the result of the aggregation gives the same rows again: the same multiset
  of rows in every case, and the same sequence when the sort leaves a sorted list as it
  is or when no two rows of the result have the same date.
\<close>

theorem aggregate_idempotent:
  assumes "sorts_descending srt" and "well_formed_rows rs"
  shows "\<exists>out out2. aggregate srt rs = Inr out \<and> aggregate srt out = Inr out2 \<and>
           mset out2 = mset out \<and>
           ((\<forall>xs. sorted_wrt (\<lambda>a b. date_key b \<le> date_key a) xs \<longrightarrow> srt xs = xs) \<longrightarrow> out2 = out) \<and>
           (distinct (map date_key out) \<longrightarrow> out2 = out)"
proof (cases "\<exists>r \<in> set (first_by_url rs). date_slug r \<noteq> []")
  case True
  let ?D = "filter (\<lambda>r. date_slug r \<noteq> []) (first_by_url rs)"
  let ?out = "take DAYS_BACK (srt ?D)"
  note sp = sorts_descending_props[OF assms(1)]
  have a: "aggregate srt rs = Inr ?out" using assms True by (rule aggregate_dated)
  have s1: "sorted_wrt (\<lambda>a b. date_key b \<le> date_key a) ?out"
    using sp(4)[of ?D] by (rule sorted_wrt_take)
  have sub: "set ?out \<subseteq> set ?D" using sp(2)[of ?D] set_take_subset[of DAYS_BACK "srt ?D"] by simp
  then have d: "\<forall>r \<in> set ?out. date_slug r \<noteq> []" by auto
  have "?D \<noteq> []" using True by (auto simp: filter_empty_conv)
  then have "srt ?D \<noteq> []" using sp(3)[of ?D] by (metis length_0_conv)
  then have ne: "?out \<noteq> []" using DAYS_BACK_pos by simp
  have "distinct (map row_url ?D)"
    using first_by_url_props(2)[of rs] by (rule distinct_map_filter)
  then have "distinct (map row_url (srt ?D))" by (simp add: sp(5))
  then have u: "distinct (map row_url ?out)" by (rule distinct_map_take)
  have f: "first_by_url ?out = ?out" using u by (rule first_by_url_distinct)
  have "set ?out \<subseteq> set rs" using sub first_by_url_props(1)[of rs] by auto
  with assms(2) have w: "well_formed_rows ?out" by (rule well_formed_subset)
  have "hd ?out \<in> set ?out" using ne by (rule hd_in_set)
  with d have e: "\<exists>r \<in> set (first_by_url ?out). date_slug r \<noteq> []"
    unfolding f by blast
  have fo: "filter (\<lambda>r. date_slug r \<noteq> []) ?out = ?out" using d by (rule filter_True)
  have "length (srt ?out) \<le> DAYS_BACK" by (simp add: sp(3))
  then have b: "aggregate srt ?out = Inr (srt ?out)"
    using aggregate_dated[OF assms(1) w e] unfolding f fo by simp
  have m: "mset (srt ?out) = mset ?out" by (rule sp(1))
  have st: "(\<forall>xs. sorted_wrt (\<lambda>a b. date_key b \<le> date_key a) xs \<longrightarrow> srt xs = xs) \<longrightarrow> srt ?out = ?out"
    using s1 by blast
  have di: "distinct (map date_key ?out) \<longrightarrow> srt ?out = ?out"
  proof
    assume "distinct (map date_key ?out)"
    with s1 sp(4)[of ?out] m[symmetric] have "?out = srt ?out" by (rule sorted_desc_unique)
    then show "srt ?out = ?out" by (rule sym)
  qed
  show ?thesis by (intro exI[of _ ?out] exI[of _ "srt ?out"] conjI a b m st di)
next
  case False
  let ?out = "take DAYS_BACK (first_by_url rs)"
  have a: "aggregate srt rs = Inr ?out" using False by (rule aggregate_undated)
  have u: "distinct (map row_url ?out)"
    using first_by_url_props(2)[of rs] by (rule distinct_map_take)
  have f: "first_by_url ?out = ?out" using u by (rule first_by_url_distinct)
  have "set ?out \<subseteq> set (first_by_url rs)" by (rule set_take_subset)
  with False have "\<not> (\<exists>r \<in> set (first_by_url ?out). date_slug r \<noteq> [])"
    unfolding f by blast
  then have "aggregate srt ?out = Inr (take DAYS_BACK (first_by_url ?out))"
    by (rule aggregate_undated)
  then have b: "aggregate srt ?out = Inr ?out" unfolding f by simp
  show ?thesis by (intro exI[of _ ?out] conjI a b refl impI)
qed

text \<open>C9 on the rows of the three bulletins.\<close>

theorem aggregate_idempotent_witness:
  "aggregate sort_values_stable three_rows = Inr [row_20, row_19, row_18] \<and>
   aggregate sort_values_stable [row_20, row_19, row_18] = Inr [row_20, row_19, row_18]"
proof -
  from aggregate_idempotent[OF sorts_descending_stable three_rows_well_formed]
  obtain out out2 where a: "aggregate sort_values_stable three_rows = Inr out"
    and b: "aggregate sort_values_stable out = Inr out2"
    and d: "distinct (map date_key out) \<longrightarrow> out2 = out"
    by blast
  have "aggregate sort_values_stable three_rows = Inr [row_20, row_19, row_18]"
    by (simp add: aggregate_def drop_duplicates_first_by_url three_rows_dedup three_rows_dated
        three_rows_sorted Let_def DAYS_BACK_def)
       (simp add: three_rows_def row_slugs isoformat_nonempty to_datetime_isoformat)
  with a have o: "out = [row_20, row_19, row_18]" by simp
  then have "distinct (map date_key out)" by (simp add: row_keys)
  with d have "out2 = out" by simp
  with a b o show ?thesis by simp
qed

end
